theory Spec2Isabelle
  imports Main "HOL-Library.Word"
begin

section \<open>Common types\<close>

text \<open>
  A Node \<^verbatim>\<open>Buffer\<close> is a sequence of bytes. A call identifier (\<^verbatim>\<open>callSid\<close>) is a string or
  \<^verbatim>\<open>null\<close> (\<^verbatim>\<open>URLSearchParams.get\<close> returns \<^verbatim>\<open>null\<close> for a missing parameter), and JavaScript
  \<^verbatim>\<open>Map\<close>s accept \<^verbatim>\<open>null\<close> as a key. Times are the millisecond values of \<^verbatim>\<open>Date.now()\<close>.
\<close>

type_synonym bytes = "8 word list"
type_synonym call_id = "string option"
type_synonym millis = int

section \<open>Speech recognition client: audio relay (\<^verbatim>\<open>ElevenLabsClient\<close>, src/elevenlabs.js)\<close>

text \<open>
  The message written to the socket by \<^verbatim>\<open>sendAudio\<close> and \<^verbatim>\<open>flushPending\<close>:
  \<^verbatim>\<open>{message_type: 'input_audio_chunk', audio_base_64, commit, sample_rate}\<close>.
  The field \<open>audio\<close> holds the bytes that \<^verbatim>\<open>audio_base_64\<close> encodes.
\<close>

datatype stt_out = InputAudioChunk (audio: bytes) (commit: bool) (sample_rate: nat)

text \<open>
  The fields of the client that \<^verbatim>\<open>sendAudio\<close>, \<^verbatim>\<open>flushPending\<close> and the socket handlers
  read or write. \<open>stt_wsOpen\<close> is the test \<^verbatim>\<open>this.ws?.readyState === WebSocket.OPEN\<close>
  (false while \<^verbatim>\<open>this.ws\<close> is \<^verbatim>\<open>null\<close>); \<open>stt_wsSent\<close> is the sequence of \<^verbatim>\<open>this.ws.send\<close>
  calls made so far.
\<close>

record stt_client =
  stt_sampleRate :: nat
  stt_ready :: bool
  stt_wsOpen :: bool
  stt_pending :: "bytes list"
  stt_wsSent :: "stt_out list"

text \<open>The constructor: \<^verbatim>\<open>this.ws = null; this.ready = false; this.pending = []\<close>.\<close>

definition stt_new :: "nat \<Rightarrow> stt_client" where
  "stt_new rate =
     \<lparr>stt_sampleRate = rate, stt_ready = False, stt_wsOpen = False,
      stt_pending = [], stt_wsSent = []\<rparr>"

definition sendAudio :: "stt_client \<Rightarrow> bytes \<Rightarrow> stt_client" where
  "sendAudio c buffer =
     (if stt_ready c \<and> stt_wsOpen c
      then c\<lparr>stt_wsSent := stt_wsSent c @ [InputAudioChunk buffer False (stt_sampleRate c)]\<rparr>
      else c\<lparr>stt_pending := stt_pending c @ [buffer]\<rparr>)"

text \<open>The loop \<^verbatim>\<open>while (this.pending.length) { const buf = this.pending.shift(); ... }\<close>.\<close>

function flushLoop :: "stt_client \<Rightarrow> stt_client" where
  "flushLoop c =
     (case stt_pending c of
        [] \<Rightarrow> c
      | buf # rest \<Rightarrow>
          flushLoop (c\<lparr>stt_pending := rest,
                       stt_wsSent := stt_wsSent c @ [InputAudioChunk buf False (stt_sampleRate c)]\<rparr>))"
  by pat_completeness auto
termination
  by (relation "measure (\<lambda>c. length (stt_pending c))") auto

declare flushLoop.simps [simp del]

definition flushPending :: "stt_client \<Rightarrow> stt_client" where
  "flushPending c = (if \<not> stt_ready c \<or> \<not> stt_wsOpen c then c else flushLoop c)"

text \<open>
  The socket's \<^verbatim>\<open>'open'\<close> handler: \<^verbatim>\<open>this.ready = true; this.flushPending()\<close>. The socket
  is in state \<^verbatim>\<open>OPEN\<close> when the event is emitted.
\<close>

definition stt_onOpen :: "stt_client \<Rightarrow> stt_client" where
  "stt_onOpen c = flushPending (c\<lparr>stt_ready := True, stt_wsOpen := True\<rparr>)"

text \<open>The socket's \<^verbatim>\<open>'close'\<close> handler: \<^verbatim>\<open>this.ready = false; this.pending = []\<close>.\<close>

definition stt_onClose :: "stt_client \<Rightarrow> stt_client" where
  "stt_onClose c = c\<lparr>stt_ready := False, stt_wsOpen := False, stt_pending := []\<rparr>"

section \<open>Wake debouncer (\<^verbatim>\<open>handleWake\<close>, \<^verbatim>\<open>doWake\<close>, server module)\<close>

text \<open>
  The debouncer's state is two module-level maps, \<^verbatim>\<open>lastWake\<close> (call to time stamp) and
  \<^verbatim>\<open>partialWakeTimers\<close> (call to \<^verbatim>\<open>{timer, text}\<close>), and the runtime's table of
  scheduled timers. A timer is what \<^verbatim>\<open>setTimeout\<close> returns: it is identified by a handle,
  has a due time, and its callback closes over \<^verbatim>\<open>state.callSid\<close>. \<open>wakes\<close> records the
  calls of \<^verbatim>\<open>doWake\<close> in the order they happen, each with the clock value at which it ran.
\<close>

type_synonym timer_id = nat

datatype timer = Timer (tm_id: timer_id) (tm_due: millis) (tm_call: call_id)

datatype wake_trigger = WakeTrigger (wk_time: millis) (wk_call: call_id) (wk_text: string)

record wake_state =
  lastWake :: "call_id \<rightharpoonup> millis"
  partialWakeTimers :: "call_id \<rightharpoonup> (timer_id \<times> string)"
  timers :: "timer list"
  nextTimer :: timer_id
  wakes :: "wake_trigger list"

definition wake_init :: wake_state where
  "wake_init = \<lparr>lastWake = Map.empty, partialWakeTimers = Map.empty, timers = [],
                nextTimer = 0, wakes = []\<rparr>"

text \<open>
  \<^verbatim>\<open>setTimeout(cb, delay)\<close> registers a timer under a fresh handle; \<^verbatim>\<open>clearTimeout(h)\<close>
  removes the timer with that handle, if it is still scheduled.
\<close>

definition setTimeout :: "millis \<Rightarrow> call_id \<Rightarrow> wake_state \<Rightarrow> timer_id \<times> wake_state" where
  "setTimeout due sid st =
     (nextTimer st,
      st\<lparr>timers := timers st @ [Timer (nextTimer st) due sid], nextTimer := Suc (nextTimer st)\<rparr>)"

definition clearTimeout :: "timer_id \<Rightarrow> wake_state \<Rightarrow> wake_state" where
  "clearTimeout tid st = st\<lparr>timers := [e \<leftarrow> timers st. tm_id e \<noteq> tid]\<rparr>"

text \<open>\<^verbatim>\<open>lastWake.get(state.callSid) || 0\<close>: a missing entry, like a zero entry, reads as 0.\<close>

definition lastWakeOr0 :: "wake_state \<Rightarrow> call_id \<Rightarrow> millis" where
  "lastWakeOr0 st sid = (case lastWake st sid of None \<Rightarrow> 0 | Some t \<Rightarrow> t)"

text \<open>
  \<^verbatim>\<open>doWake\<close> first runs \<^verbatim>\<open>lastWake.set(state.callSid, Date.now())\<close>; what follows (the agent
  turn and the playback) is awaited and touches neither map, so the model keeps the stamp
  and the record of the trigger.
\<close>

definition doWake :: "wake_state \<Rightarrow> millis \<Rightarrow> call_id \<Rightarrow> string \<Rightarrow> wake_state" where
  "doWake st now sid text =
     st\<lparr>lastWake := (lastWake st)(sid \<mapsto> now), wakes := wakes st @ [WakeTrigger now sid text]\<rparr>"

text \<open>
  \<^verbatim>\<open>handleWake(state, text, isCommitted)\<close>, run at clock value \<open>now\<close>. The function has no
  \<^verbatim>\<open>await\<close> before its call of \<^verbatim>\<open>doWake\<close>, so it runs to that point without interruption;
  the model reads the clock once per handler run.
  \<^verbatim>\<open>
  const now = Date.now();
  const last = lastWake.get(state.callSid) || 0;
  if (now - last < 8000) return;
  if (!isCommitted) {
    const existing = partialWakeTimers.get(state.callSid);
    if (existing) clearTimeout(existing.timer);
    const timer = setTimeout(() => { ... }, 2500);
    partialWakeTimers.set(state.callSid, { timer, text });
    return;
  }
  if (partialWakeTimers.has(state.callSid)) {
    clearTimeout(partialWakeTimers.get(state.callSid).timer);
    partialWakeTimers.delete(state.callSid);
  }
  lastWake.set(state.callSid, now);
  await doWake(state, text);
  \<close>
\<close>

definition handleWake :: "wake_state \<Rightarrow> millis \<Rightarrow> call_id \<Rightarrow> string \<Rightarrow> bool \<Rightarrow> wake_state" where
  "handleWake st now sid text isCommitted =
     (let last = lastWakeOr0 st sid in
      if now - last < 8000 then st
      else if \<not> isCommitted then
        (let st1 = (case partialWakeTimers st sid of
                      None \<Rightarrow> st
                    | Some existing \<Rightarrow> clearTimeout (fst existing) st);
             (timer, st2) = setTimeout (now + 2500) sid st1
         in st2\<lparr>partialWakeTimers := (partialWakeTimers st2)(sid \<mapsto> (timer, text))\<rparr>)
      else
        (let st1 = (case partialWakeTimers st sid of
                      None \<Rightarrow> st
                    | Some existing \<Rightarrow>
                        (clearTimeout (fst existing) st)
                          \<lparr>partialWakeTimers := (partialWakeTimers st)(sid := None)\<rparr>);
             st2 = st1\<lparr>lastWake := (lastWake st1)(sid \<mapsto> now)\<rparr>
         in doWake st2 now sid text))"

text \<open>
  The callback given to \<^verbatim>\<open>setTimeout\<close>, run at clock value \<open>now\<close>:
  \<^verbatim>\<open>
  const pending = partialWakeTimers.get(state.callSid);
  partialWakeTimers.delete(state.callSid);
  const stillThrottled = Date.now() - (lastWake.get(state.callSid) || 0) < 8000;
  if (!stillThrottled && pending) doWake(state, pending.text);
  \<close>
\<close>

definition timerCallback :: "wake_state \<Rightarrow> millis \<Rightarrow> call_id \<Rightarrow> wake_state" where
  "timerCallback st now sid =
     (let pending = partialWakeTimers st sid;
          st1 = st\<lparr>partialWakeTimers := (partialWakeTimers st)(sid := None)\<rparr>;
          stillThrottled = (now - lastWakeOr0 st1 sid < 8000)
      in case pending of
           None \<Rightarrow> st1
         | Some p \<Rightarrow> if \<not> stillThrottled then doWake st1 now sid (snd p) else st1)"

text \<open>
  The event loop. Before a transcript that arrives at time \<open>t\<close> is handled, every timer
  due at or before \<open>t\<close> has fired, in the order of scheduling (all delays are equal), each
  at its due time. The callbacks neither schedule nor clear timers. The callback reads
  \<^verbatim>\<open>state.callSid\<close> when it runs; the media handler assigns that field, if at all, on the
  \<^verbatim>\<open>start\<close> event, before it connects the recognition socket, so the field has its final
  value whenever a transcript is handled and a timer can keep the call it was set for.
\<close>

fun fireTimers :: "timer list \<Rightarrow> wake_state \<Rightarrow> wake_state" where
  "fireTimers [] st = st"
| "fireTimers (e # es) st = fireTimers es (timerCallback st (tm_due e) (tm_call e))"

definition advance :: "millis \<Rightarrow> wake_state \<Rightarrow> wake_state" where
  "advance t st =
     fireTimers [e \<leftarrow> timers st. tm_due e \<le> t] (st\<lparr>timers := [e \<leftarrow> timers st. \<not> tm_due e \<le> t]\<rparr>)"

text \<open>
  A wake-matching transcript delivered to \<^verbatim>\<open>handleWake\<close>: its arrival time, the call, the
  text and whether it is committed. \<open>run\<close> feeds a sequence of them to the debouncer.
\<close>

datatype transcript = Transcript (tr_time: millis) (tr_call: call_id) (tr_text: string) (tr_committed: bool)

fun run :: "transcript list \<Rightarrow> wake_state \<Rightarrow> wake_state" where
  "run [] st = st"
| "run (e # es) st =
     run es (handleWake (advance (tr_time e) st) (tr_time e) (tr_call e) (tr_text e) (tr_committed e))"

subsection \<open>Notions used to state the debouncer's properties\<close>

text \<open>
  A trigger log is \<open>spaced\<close> when any two of its triggers for the same call are at least
  a throttle window apart, the later one after the earlier one.
\<close>

definition spaced :: "wake_trigger list \<Rightarrow> bool" where
  "spaced ws = sorted_wrt (\<lambda>a b. wk_call a = wk_call b \<longrightarrow> wk_time a + 8000 \<le> wk_time b) ws"

definition throttle_inv :: "wake_state \<Rightarrow> bool" where
  "throttle_inv st \<longleftrightarrow>
     (\<forall>w \<in> set (wakes st). wk_time w \<le> lastWakeOr0 st (wk_call w)) \<and> spaced (wakes st)"

text \<open>The triggers and the scheduled timers of one call.\<close>

definition wakesOf :: "call_id \<Rightarrow> wake_state \<Rightarrow> wake_trigger list" where
  "wakesOf sid st = [w \<leftarrow> wakes st. wk_call w = sid]"

definition timersOf :: "call_id \<Rightarrow> wake_state \<Rightarrow> timer list" where
  "timersOf sid st = [e \<leftarrow> timers st. tm_call e = sid]"

text \<open>
  Bookkeeping of the timers: handles are distinct and already issued, and every scheduled
  timer is the one recorded in \<^verbatim>\<open>partialWakeTimers\<close> for its call.
\<close>

definition pending_inv :: "timer list \<Rightarrow> wake_state \<Rightarrow> bool" where
  "pending_inv es st \<longleftrightarrow>
     distinct (map tm_id es) \<and>
     (\<forall>e \<in> set es. tm_id e < nextTimer st \<and>
        (\<exists>x. partialWakeTimers st (tm_call e) = Some (tm_id e, x)))"

definition timers_inv :: "wake_state \<Rightarrow> bool" where
  "timers_inv st = pending_inv (timers st) st"

text \<open>
  Bookkeeping of the records: a recorded handle is already issued, and no two calls have the
  same handle recorded.
\<close>

definition records_inv :: "wake_state \<Rightarrow> bool" where
  "records_inv st \<longleftrightarrow>
     (\<forall>s t x. partialWakeTimers st s = Some (t, x) \<longrightarrow> t < nextTimer st)
     \<and> (\<forall>s s' t x y. partialWakeTimers st s = Some (t, x) \<and> partialWakeTimers st s' = Some (t, y)
           \<longrightarrow> s = s')"

text \<open>The timers left after \<^verbatim>\<open>handleWake\<close> has cleared the timer recorded for a call.\<close>

definition cleared :: "call_id \<Rightarrow> wake_state \<Rightarrow> timer list" where
  "cleared sid st =
     (case partialWakeTimers st sid of
        None \<Rightarrow> timers st
      | Some existing \<Rightarrow> [e \<leftarrow> timers st. tm_id e \<noteq> fst existing])"

text \<open>
  A burst of partial transcripts: every partial arrives no earlier than the one before it
  and less than the debounce window (2500 ms) after it.
\<close>

fun close_gaps :: "millis list \<Rightarrow> bool" where
  "close_gaps [] = True"
| "close_gaps [t] = True"
| "close_gaps (t # t' # ts) = (t \<le> t' \<and> t' < t + 2500 \<and> close_gaps (t' # ts))"

definition partials :: "call_id \<Rightarrow> (millis \<times> string) list \<Rightarrow> transcript list" where
  "partials sid ps = map (\<lambda>p. Transcript (fst p) sid (snd p) False) ps"

text \<open>The transcripts of a sequence that arrive before the first one of a given call.\<close>

definition before_first :: "call_id \<Rightarrow> transcript list \<Rightarrow> transcript list" where
  "before_first sid tr = takeWhile (\<lambda>e. tr_call e \<noteq> sid) tr"

section \<open>Agent turn coordinator (\<^verbatim>\<open>ElevenLabsAgentClient\<close>, src/elevenlabs.js)\<close>

text \<open>
  A message of the agent's socket after \<^verbatim>\<open>JSON.parse\<close>, by its \<^verbatim>\<open>type\<close> field, with the
  fields \<^verbatim>\<open>handleMessage\<close> reads. A \<^verbatim>\<open>text_response_part\<close> has a \<^verbatim>\<open>type\<close> and a \<^verbatim>\<open>text\<close>; a
  missing string field reads as the empty string, which JavaScript treats as false.
\<close>

datatype text_part = TextPart (part_type: string) (part_text: string)

datatype agent_msg =
    NonJson
  | ConversationInitiationMetadata "string option"
  | AgentChatResponsePart "text_part option"
  | AgentResponse string
  | AudioEvent string
  | Ping "nat option"
  | OtherMessage

text \<open>What the client writes to the socket.\<close>

datatype agent_out = ConversationInitiationClientData | UserMessage string | Pong "nat option"

text \<open>
  The client's fields. \<open>ag_wsOpen\<close> is \<^verbatim>\<open>this.ws?.readyState === WebSocket.OPEN\<close>;
  \<open>ag_hasDynamicVariables\<close> is \<^verbatim>\<open>Object.keys(this.dynamicVariables).length !== 0\<close>; the three
  handler fields say whether a callback is registered. \<open>pendingResolve\<close> holds the resolver
  of the promise returned by the last \<^verbatim>\<open>sendText\<close>, named by the number of that promise.
  The remaining fields record effects: the timeouts scheduled by \<^verbatim>\<open>sendText\<close> (by due time;
  the source never clears them), the promises resolved so far with their values (\<open>None\<close> is
  \<^verbatim>\<open>null\<close>), the calls of the three callbacks, and the messages written to the socket.
\<close>

record agent_client =
  ag_ready :: bool
  ag_wsOpen :: bool
  ag_hasDynamicVariables :: bool
  conversationId :: "string option"
  responseHandler :: bool
  audioHandler :: bool
  subsequentHandler :: bool
  pendingResolve :: "nat option"
  responseBuffer :: string
  firstResolved :: bool
  ag_timeouts :: "millis list"
  nextPromise :: nat
  resolved :: "(nat \<times> string option) list"
  subsequent :: "string list"
  responses :: "string list"
  audios :: "string list"
  ag_wsSent :: "agent_out list"

definition agent_new :: "bool \<Rightarrow> agent_client" where
  "agent_new vars =
     \<lparr>ag_ready = False, ag_wsOpen = False, ag_hasDynamicVariables = vars,
      conversationId = None, responseHandler = False, audioHandler = False,
      subsequentHandler = False, pendingResolve = None, responseBuffer = [],
      firstResolved = False, ag_timeouts = [], nextPromise = 0, resolved = [],
      subsequent = [], responses = [], audios = [], ag_wsSent = []\<rparr>"

text \<open>
  \<^verbatim>\<open>sendInitData\<close>, and the socket's \<^verbatim>\<open>'open'\<close> and \<^verbatim>\<open>'close'\<close> handlers installed by
  \<^verbatim>\<open>connect\<close>.
\<close>

definition sendInitData :: "agent_client \<Rightarrow> agent_client" where
  "sendInitData c =
     (if \<not> ag_wsOpen c then c
      else if \<not> ag_hasDynamicVariables c then c
      else c\<lparr>ag_wsSent := ag_wsSent c @ [ConversationInitiationClientData]\<rparr>)"

definition agent_onOpen :: "agent_client \<Rightarrow> agent_client" where
  "agent_onOpen c = sendInitData (c\<lparr>ag_ready := True, ag_wsOpen := True\<rparr>)"

definition agent_onClose :: "agent_client \<Rightarrow> agent_client" where
  "agent_onClose c = c\<lparr>ag_ready := False, ag_wsOpen := False\<rparr>"

text \<open>
  \<^verbatim>\<open>sendText(text)\<close>, called at clock value \<open>now\<close>:
  \<^verbatim>\<open>
  if (!this.ready || this.ws?.readyState !== WebSocket.OPEN) await this.connect();
  this.responseBuffer = '';
  this.firstResolved = false;
  this.ws.send(JSON.stringify({ type: 'user_message', text }));
  return new Promise(resolve => {
    this.pendingResolve = resolve;
    setTimeout(() => { ... }, 15000);
  });
  \<close>
  Whether \<^verbatim>\<open>connect()\<close> succeeds when it is needed is the parameter \<open>connects\<close>; a failed
  connection rejects (the \<^verbatim>\<open>'error'\<close> handler has reset \<^verbatim>\<open>ready\<close>). The result is the state
  and either the error or the number of the promise returned.
\<close>

datatype agent_error = ConnectError

definition sendText :: "agent_client \<Rightarrow> millis \<Rightarrow> string \<Rightarrow> bool \<Rightarrow> agent_client \<times> (agent_error + nat)" where
  "sendText c now text connects =
     (if (\<not> ag_ready c \<or> \<not> ag_wsOpen c) \<and> \<not> connects
      then (c\<lparr>ag_ready := False\<rparr>, Inl ConnectError)
      else
        (let c1 = (if \<not> ag_ready c \<or> \<not> ag_wsOpen c then agent_onOpen c else c);
             c2 = c1\<lparr>responseBuffer := [], firstResolved := False,
                     ag_wsSent := ag_wsSent c1 @ [UserMessage text]\<rparr>;
             p = nextPromise c2
         in (c2\<lparr>pendingResolve := Some p, nextPromise := Suc p,
                 ag_timeouts := ag_timeouts c2 @ [now + 15000]\<rparr>, Inr p)))"

text \<open>
  The callback of the timeout set by \<^verbatim>\<open>sendText\<close>. It reads the resolver stored in the client
  when it runs, not the one of the call that scheduled it:
  \<^verbatim>\<open>
  if (this.pendingResolve) {
    this.pendingResolve(this.responseBuffer || null);
    this.pendingResolve = null;
    this.firstResolved = true;
  }
  \<close>
\<close>

definition bufferOrNull :: "string \<Rightarrow> string option" where
  "bufferOrNull s = (if s = [] then None else Some s)"

definition timeoutCallback :: "agent_client \<Rightarrow> agent_client" where
  "timeoutCallback c =
     (case pendingResolve c of
        None \<Rightarrow> c
      | Some p \<Rightarrow>
          c\<lparr>resolved := resolved c @ [(p, bufferOrNull (responseBuffer c))],
            pendingResolve := None, firstResolved := True\<rparr>)"

text \<open>
  The delivery shared by the \<^verbatim>\<open>stop\<close> branch and the \<^verbatim>\<open>agent_response\<close> branch of
  \<^verbatim>\<open>handleMessage\<close>: a pending wait is resolved; otherwise the reply goes to the callback
  for subsequent responses, if the first wait has resolved and a callback is registered.
\<close>

definition deliver :: "agent_client \<Rightarrow> string \<Rightarrow> agent_client" where
  "deliver c response =
     (case pendingResolve c of
        Some p \<Rightarrow>
          c\<lparr>resolved := resolved c @ [(p, Some response)],
            pendingResolve := None, firstResolved := True\<rparr>
      | None \<Rightarrow>
          if firstResolved c \<and> subsequentHandler c
          then c\<lparr>subsequent := subsequent c @ [response]\<rparr>
          else c)"

text \<open>
  \<^verbatim>\<open>handleMessage(raw)\<close>. The \<^verbatim>\<open>stop\<close> branch is guarded by \<^verbatim>\<open>this.responseBuffer\<close> being
  non-empty and clears the buffer after the delivery; the \<^verbatim>\<open>agent_response\<close> branch leaves
  the buffer as it is. Messages arrive on an open socket, so \<^verbatim>\<open>this.ws?.send(pong)\<close> sends.
\<close>

fun handleMessage :: "agent_client \<Rightarrow> agent_msg \<Rightarrow> agent_client" where
  "handleMessage c NonJson = c"
| "handleMessage c (ConversationInitiationMetadata cid) = c\<lparr>conversationId := cid\<rparr>"
| "handleMessage c (AgentChatResponsePart None) = c"
| "handleMessage c (AgentChatResponsePart (Some part)) =
     (if part_type part = ''start'' then c\<lparr>responseBuffer := []\<rparr>
      else if part_type part = ''delta'' \<and> part_text part \<noteq> []
        then c\<lparr>responseBuffer := responseBuffer c @ part_text part\<rparr>
      else if part_type part = ''stop'' \<and> responseBuffer c \<noteq> []
        then (deliver c (responseBuffer c))\<lparr>responseBuffer := []\<rparr>
      else c)"
| "handleMessage c (AgentResponse text) =
     (let c1 = (if responseHandler c then c\<lparr>responses := responses c @ [text]\<rparr> else c)
      in if text \<noteq> [] then deliver c1 text else c1)"
| "handleMessage c (AudioEvent b64) =
     (if b64 \<noteq> [] \<and> audioHandler c then c\<lparr>audios := audios c @ [b64]\<rparr> else c)"
| "handleMessage c (Ping event_id) =
     (if ag_wsOpen c then c\<lparr>ag_wsSent := ag_wsSent c @ [Pong event_id]\<rparr> else c)"
| "handleMessage c OtherMessage = c"

text \<open>
  The event loop of one client: before an event at time \<open>t\<close> is handled, the timeouts due
  at or before \<open>t\<close> have run. An event is a call of \<^verbatim>\<open>sendText\<close>, a message from the socket,
  or the registration of a callback.
\<close>

fun fireTimeouts :: "millis list \<Rightarrow> agent_client \<Rightarrow> agent_client" where
  "fireTimeouts [] c = c"
| "fireTimeouts (d # ds) c = fireTimeouts ds (timeoutCallback c)"

definition agent_advance :: "millis \<Rightarrow> agent_client \<Rightarrow> agent_client" where
  "agent_advance t c =
     fireTimeouts [d \<leftarrow> ag_timeouts c. d \<le> t] (c\<lparr>ag_timeouts := [d \<leftarrow> ag_timeouts c. \<not> d \<le> t]\<rparr>)"

datatype agent_event =
    SendText string bool
  | Message agent_msg
  | OnResponse
  | OnAudio
  | OnSubsequentResponse

fun agent_handle :: "millis \<Rightarrow> agent_event \<Rightarrow> agent_client \<Rightarrow> agent_client" where
  "agent_handle t (SendText text connects) c = fst (sendText c t text connects)"
| "agent_handle t (Message m) c = handleMessage c m"
| "agent_handle t OnResponse c = c\<lparr>responseHandler := True\<rparr>"
| "agent_handle t OnAudio c = c\<lparr>audioHandler := True\<rparr>"
| "agent_handle t OnSubsequentResponse c = c\<lparr>subsequentHandler := True\<rparr>"

fun agent_run :: "(millis \<times> agent_event) list \<Rightarrow> agent_client \<Rightarrow> agent_client" where
  "agent_run [] c = c"
| "agent_run (e # es) c = agent_run es (agent_handle (fst e) (snd e) (agent_advance (fst e) c))"

text \<open>The three kinds of reply fragment.\<close>

definition startPart :: agent_msg where "startPart = AgentChatResponsePart (Some (TextPart ''start'' []))"

definition stopPart :: agent_msg where "stopPart = AgentChatResponsePart (Some (TextPart ''stop'' []))"

definition deltaPart :: "string \<Rightarrow> agent_msg" where "deltaPart s = AgentChatResponsePart (Some (TextPart ''delta'' s))"

subsection \<open>Notions used to state the coordinator's properties\<close>

text \<open>
  Bookkeeping of promises: the pending promise has been issued and is not resolved yet, and
  every resolved promise has been issued.
\<close>

definition ag_inv :: "agent_client \<Rightarrow> bool" where
  "ag_inv c \<longleftrightarrow>
     (\<forall>p. pendingResolve c = Some p \<longrightarrow> p < nextPromise c \<and> p \<notin> fst ` set (resolved c))
     \<and> (\<forall>r \<in> set (resolved c). fst r < nextPromise c)"

text \<open>A promise that has been issued, is not pending and has not been resolved.\<close>

definition abandoned :: "nat \<Rightarrow> agent_client \<Rightarrow> bool" where
  "abandoned p c \<longleftrightarrow>
     p < nextPromise c \<and> pendingResolve c \<noteq> Some p \<and> p \<notin> fst ` set (resolved c)"

text \<open>No delivery so far, on either channel, carried the empty string.\<close>

definition nonempty_inv :: "agent_client \<Rightarrow> bool" where
  "nonempty_inv c \<longleftrightarrow> (\<forall>r \<in> set (resolved c). snd r \<noteq> Some []) \<and> [] \<notin> set (subsequent c)"

text \<open>
  Two clients agree on what decides a reply: the pending resolver, the buffer, the flag
  \<^verbatim>\<open>firstResolved\<close>, the promises resolved, the subsequent responses and whether their
  callback is registered. A message is \<open>neutral\<close> when it is neither a reply fragment nor
  an \<^verbatim>\<open>agent_response\<close> with text: a message that is not JSON, the conversation metadata,
  audio, a ping, a message of another type.
\<close>

definition same_reply :: "agent_client \<Rightarrow> agent_client \<Rightarrow> bool" where
  "same_reply c c' \<longleftrightarrow>
     pendingResolve c = pendingResolve c' \<and> responseBuffer c = responseBuffer c'
     \<and> firstResolved c = firstResolved c' \<and> resolved c = resolved c'
     \<and> subsequent c = subsequent c' \<and> subsequentHandler c = subsequentHandler c'"

fun neutral :: "agent_msg \<Rightarrow> bool" where
  "neutral (AgentChatResponsePart (Some part)) = False"
| "neutral (AgentResponse text) = (text = [])"
| "neutral _ = True"

section \<open>Playback announcer (\<^verbatim>\<open>respondWithTts\<close> and \<^verbatim>\<open>GET /audio/:id\<close>, server module)\<close>

text \<open>
  The value stored in \<^verbatim>\<open>callMeta\<close> for a call: \<^verbatim>\<open>{from, conferenceSid, conferenceName}\<close>,
  each field possibly missing or \<^verbatim>\<open>null\<close>. \<open>emptyMeta\<close> is the object \<^verbatim>\<open>{}\<close> used when the
  map has no entry. \<open>truthy\<close> is JavaScript's test of a string-or-null value, and \<open>orElse\<close>
  is \<^verbatim>\<open>a || b\<close>.
\<close>

record call_meta =
  cm_from :: "string option"
  conferenceSid :: "string option"
  conferenceName :: "string option"

definition emptyMeta :: call_meta where
  "emptyMeta = \<lparr>cm_from = None, conferenceSid = None, conferenceName = None\<rparr>"

definition truthy :: "string option \<Rightarrow> bool" where
  "truthy s \<longleftrightarrow> s \<noteq> None \<and> s \<noteq> Some []"

definition orElse :: "string option \<Rightarrow> string option \<Rightarrow> string option" where
  "orElse a b = (if truthy a then a else b)"

text \<open>
  The configuration \<^verbatim>\<open>respondWithTts\<close> reads: whether \<^verbatim>\<open>twilioClient\<close> was created (both
  account credentials present) and the value of \<^verbatim>\<open>PUBLIC_BASE_URL\<close>.
\<close>

record config =
  twilioClient :: bool
  PUBLIC_BASE_URL :: "string option"

text \<open>
  The external services, as the outcome of each request: \<open>Inl\<close> is the message of the
  exception thrown, \<open>Inr\<close> the value returned. \<open>conferencesList name\<close> is
  \<^verbatim>\<open>conferences.list({friendlyName: name, status: 'in-progress', limit: 1})\<close>, giving the sids;
  \<open>conferenceUpdate sid url\<close> is \<^verbatim>\<open>conferences(sid).update({announceUrl: url, ...})\<close>;
  \<open>participantUpdate sid call url\<close> is
  \<^verbatim>\<open>conferences(sid).participants(call).update({announceUrl: url})\<close>;
  \<open>callUpdate call twiml\<close> is \<^verbatim>\<open>calls(call).update({twiml})\<close>.
\<close>

record services =
  synthesizeElevenlabs :: "string \<Rightarrow> string + bytes"
  conferencesList :: "string \<Rightarrow> string + string list"
  conferenceUpdate :: "string \<Rightarrow> string \<Rightarrow> string + unit"
  participantUpdate :: "string \<Rightarrow> string \<Rightarrow> string \<Rightarrow> string + unit"
  callUpdate :: "string \<Rightarrow> string \<Rightarrow> string + unit"

datatype request =
    Synthesize string
  | ConferencesList string
  | ConferenceAnnounce string string
  | ParticipantAnnounce string string string
  | CallUpdate string string

text \<open>
  The state: the maps \<^verbatim>\<open>callMeta\<close> and \<^verbatim>\<open>audioStore\<close>, the scheduled deletions of blobs
  (due time and identifier), and two records of effects: the requests made to the external
  services and the lines written with \<^verbatim>\<open>console.warn\<close>.
\<close>

record playback_state =
  callMeta :: "call_id \<rightharpoonup> call_meta"
  audioStore :: "string \<rightharpoonup> bytes"
  blobTimers :: "(millis \<times> string) list"
  requests :: "request list"
  warnings :: "string list"

definition playback_init :: playback_state where
  "playback_init = \<lparr>callMeta = Map.empty, audioStore = Map.empty, blobTimers = [],
                      requests = [], warnings = []\<rparr>"

definition warn :: "string \<Rightarrow> playback_state \<Rightarrow> playback_state" where
  "warn msg st = st\<lparr>warnings := warnings st @ [msg]\<rparr>"

definition request :: "request \<Rightarrow> playback_state \<Rightarrow> playback_state" where
  "request r st = st\<lparr>requests := requests st @ [r]\<rparr>"

text \<open>
  The blob identifier is the template \<^verbatim>\<open>Date.now()\<close>, a dash, and
  \<^verbatim>\<open>Math.random().toString(36).slice(2)\<close>. The random part is a base-36 numeral; its
  digits are the parameter \<open>rnd\<close>. \<open>numberToString\<close> is the decimal rendering of an
  integer.
\<close>

definition digit :: "nat \<Rightarrow> char" where
  "digit n = ''0123456789'' ! n"

fun decimal :: "nat \<Rightarrow> string" where
  "decimal n = (if n < 10 then [digit n] else decimal (n div 10) @ [digit (n mod 10)])"

declare decimal.simps [simp del]

definition numberToString :: "int \<Rightarrow> string" where
  "numberToString i = (if i < 0 then ''-'' @ decimal (nat (- i)) else decimal (nat i))"

definition base36 :: "nat \<Rightarrow> char" where
  "base36 d = ''0123456789abcdefghijklmnopqrstuvwxyz'' ! (d mod 36)"

definition blobId :: "millis \<Rightarrow> nat list \<Rightarrow> string" where
  "blobId now rnd = numberToString now @ ''-'' @ map base36 rnd"

text \<open>The instructions of the last tier: play the blob, then dial the conference again.\<close>

definition twimlPlay :: "string \<Rightarrow> string \<Rightarrow> string" where
  "twimlPlay url confName =
     ''<Response><Play>'' @ url @ ''</Play><Dial><Conference>'' @ confName
       @ ''</Conference></Dial></Response>''"

text \<open>
  Lines 353 to 368 of the source: with the call's metadata and conference name, look up the
  conference in progress; a conference found replaces the cached sid, in the map too; a
  failed lookup is logged and the cached sid stands.
\<close>

definition resolveConference ::
  "services \<Rightarrow> playback_state \<Rightarrow> call_id \<Rightarrow> call_meta \<Rightarrow> string option
     \<Rightarrow> playback_state \<times> string option" where
  "resolveConference svc st callSid meta confName =
     (case confName of
        None \<Rightarrow> (st, conferenceSid meta)
      | Some name \<Rightarrow>
          if name = [] then (st, conferenceSid meta)
          else
            (let st1 = request (ConferencesList name) st in
             case conferencesList svc name of
               Inl err \<Rightarrow> (warn (''conference lookup failed '' @ err) st1, conferenceSid meta)
             | Inr conferences \<Rightarrow>
                 (case conferences of
                    [] \<Rightarrow> (st1, conferenceSid meta)
                  | sid # _ \<Rightarrow>
                      (st1\<lparr>callMeta := (callMeta st1)(callSid \<mapsto> meta\<lparr>conferenceSid := Some sid\<rparr>)\<rparr>,
                       Some sid))))"

text \<open>
  Lines 371 to 392: the announcement on the conference, then on the participant, both only
  when a conference sid is known, then the update of the call. The first two catch their
  exception and log it; the exception of the last one propagates.
\<close>

definition twimlFallback ::
  "services \<Rightarrow> playback_state \<Rightarrow> string \<Rightarrow> string \<Rightarrow> string
     \<Rightarrow> playback_state \<times> (string + unit)" where
  "twimlFallback svc st callSid url confName =
     (let st1 = warn ''respondWithTts: falling back to TwiML update'' st;
          twiml = twimlPlay url confName;
          st2 = request (CallUpdate callSid twiml) st1
      in case callUpdate svc callSid twiml of
           Inl err \<Rightarrow> (st2, Inl err)
         | Inr _ \<Rightarrow> (st2, Inr ()))"

definition announceTiers ::
  "services \<Rightarrow> playback_state \<Rightarrow> string \<Rightarrow> string \<Rightarrow> string option \<Rightarrow> string
     \<Rightarrow> playback_state \<times> (string + unit)" where
  "announceTiers svc st callSid url confSid confName =
     (case confSid of
        None \<Rightarrow> twimlFallback svc st callSid url confName
      | Some cs \<Rightarrow>
          if cs = [] then twimlFallback svc st callSid url confName
          else
            (let st1 = request (ConferenceAnnounce cs url) st in
             case conferenceUpdate svc cs url of
               Inr _ \<Rightarrow> (st1, Inr ())
             | Inl e1 \<Rightarrow>
                 (let st2 = warn (''conference announce failed, trying participant '' @ e1) st1;
                      st3 = request (ParticipantAnnounce cs callSid url) st2
                  in case participantUpdate svc cs callSid url of
                       Inr _ \<Rightarrow> (st3, Inr ())
                     | Inl e2 \<Rightarrow>
                         twimlFallback svc (warn (''participant announce failed '' @ e2) st3)
                           callSid url confName)))"

text \<open>
  \<^verbatim>\<open>respondWithTts(callSid, text)\<close>. \<open>now\<close> is the clock value when the synthesis has
  returned. Synthesis rethrows its exception. The result is the state and either the message
  of the exception that left the function or a normal return.
\<close>

definition respondWithTts ::
  "config \<Rightarrow> services \<Rightarrow> playback_state \<Rightarrow> millis \<Rightarrow> nat list \<Rightarrow> call_id \<Rightarrow> string
     \<Rightarrow> playback_state \<times> (string + unit)" where
  "respondWithTts cfg svc st now rnd callSid text =
     (if \<not> twilioClient cfg
      then (warn ''respondWithTts skipped: twilio client not configured'' st, Inr ())
      else case PUBLIC_BASE_URL cfg of
        None \<Rightarrow> (warn ''respondWithTts skipped: PUBLIC_BASE_URL not set'' st, Inr ())
      | Some base \<Rightarrow>
          if base = []
          then (warn ''respondWithTts skipped: PUBLIC_BASE_URL not set'' st, Inr ())
          else case callSid of
            None \<Rightarrow> (warn ''respondWithTts skipped: callSid missing'' st, Inr ())
          | Some sid \<Rightarrow>
              if sid = []
              then (warn ''respondWithTts skipped: callSid missing'' st, Inr ())
              else
                (let st0 = request (Synthesize text) st in
                 case synthesizeElevenlabs svc text of
                   Inl err \<Rightarrow> (st0, Inl err)
                 | Inr audioBuf \<Rightarrow>
                     (let id = blobId now rnd;
                          st1 = st0\<lparr>audioStore := (audioStore st0)(id \<mapsto> audioBuf),
                                    blobTimers := blobTimers st0 @ [(now + 5 * 60 * 1000, id)]\<rparr>;
                          url = base @ ''/audio/'' @ id @ ''.mp3'';
                          meta = (case callMeta st1 callSid of None \<Rightarrow> emptyMeta | Some m \<Rightarrow> m);
                          confName = orElse (conferenceName meta) callSid;
                          (st2, confSid) = resolveConference svc st1 callSid meta confName
                      in announceTiers svc st2 sid url confSid
                           (case confName of None \<Rightarrow> [] | Some n \<Rightarrow> n))))"

text \<open>
  \<^verbatim>\<open>String.prototype.replace\<close> with a string pattern replaces the first occurrence only.
  The handler of \<^verbatim>\<open>GET /audio/:id\<close> removes \<^verbatim>\<open>'.mp3'\<close> from the parameter in this way and
  looks the key up; a \<^verbatim>\<open>Buffer\<close> is an object, so \<^verbatim>\<open>!buf\<close> holds only when the key is absent.
\<close>

fun replaceFirst :: "string \<Rightarrow> string \<Rightarrow> string \<Rightarrow> string" where
  "replaceFirst pat rep [] = (if pat = [] then rep else [])"
| "replaceFirst pat rep (c # cs) =
     (if take (length pat) (c # cs) = pat then rep @ drop (length pat) (c # cs)
      else c # replaceFirst pat rep cs)"

datatype response = NotFound | AudioMpeg bytes

definition serveAudio :: "playback_state \<Rightarrow> string \<Rightarrow> response" where
  "serveAudio st idParam =
     (let key = replaceFirst ''.mp3'' [] idParam
      in case audioStore st key of None \<Rightarrow> NotFound | Some buf \<Rightarrow> AudioMpeg buf)"

text \<open>The deletions scheduled for blobs: those due at or before \<open>t\<close> have run.\<close>

fun fireBlobTimers :: "(millis \<times> string) list \<Rightarrow> playback_state \<Rightarrow> playback_state" where
  "fireBlobTimers [] st = st"
| "fireBlobTimers (e # es) st = fireBlobTimers es (st\<lparr>audioStore := (audioStore st)(snd e := None)\<rparr>)"

definition expireBlobs :: "millis \<Rightarrow> playback_state \<Rightarrow> playback_state" where
  "expireBlobs t st =
     fireBlobTimers [e \<leftarrow> blobTimers st. fst e \<le> t] (st\<lparr>blobTimers := [e \<leftarrow> blobTimers st. \<not> fst e \<le> t]\<rparr>)"

text \<open>
  The handler of \<^verbatim>\<open>POST /voice/inbound\<close> registers a call:
  \<^verbatim>\<open>callMeta.set(CallSid, { from: From, conferenceSid: null, conferenceName: confName })\<close>
  with \<^verbatim>\<open>confName = CallSid || 'conference'\<close>.
\<close>

definition voiceInbound :: "call_id \<Rightarrow> string option \<Rightarrow> playback_state \<Rightarrow> playback_state" where
  "voiceInbound callSid from st =
     st\<lparr>callMeta := (callMeta st)(callSid \<mapsto>
          \<lparr>cm_from = from, conferenceSid = None,
           conferenceName = orElse callSid (Some ''conference'')\<rparr>)\<rparr>"

text \<open>
  The announcer over time. An event is a call of \<^verbatim>\<open>respondWithTts\<close>, with the outcomes of
  the external services during it and the digits of its random number, or a
  \<^verbatim>\<open>callMeta.set(key, value)\<close> by one of the other handlers (the routes
  \<^verbatim>\<open>/voice/inbound\<close> and \<^verbatim>\<open>/conf-events\<close>, the outbound leg, the media \<^verbatim>\<open>start\<close> event);
  nothing else writes \<^verbatim>\<open>callMeta\<close> or \<^verbatim>\<open>audioStore\<close>. Before an event at time \<open>t\<close> is
  handled, the deletions due at or before \<open>t\<close> have run. The time of an operation is the
  clock value at which it stores the blob; what it does after that touches neither
  \<^verbatim>\<open>audioStore\<close> nor the scheduled deletions, so taking the operation as one step at that
  time loses nothing about blobs.
\<close>

datatype playback_event =
    Respond services call_id string "nat list"
  | SetMeta call_id call_meta

fun playback_handle :: "config \<Rightarrow> millis \<Rightarrow> playback_event \<Rightarrow> playback_state \<Rightarrow> playback_state" where
  "playback_handle cfg t (Respond svc callSid text rnd) st =
     fst (respondWithTts cfg svc st t rnd callSid text)"
| "playback_handle cfg t (SetMeta callSid meta) st =
     st\<lparr>callMeta := (callMeta st)(callSid \<mapsto> meta)\<rparr>"

fun playback_run :: "config \<Rightarrow> (millis \<times> playback_event) list \<Rightarrow> playback_state \<Rightarrow> playback_state" where
  "playback_run cfg [] st = st"
| "playback_run cfg (e # es) st =
     playback_run cfg es (playback_handle cfg (fst e) (snd e) (expireBlobs (fst e) st))"

text \<open>
  For the calls of \<^verbatim>\<open>respondWithTts\<close> in a sequence of events: the clock value and the
  random digits as the identifier prints them.
\<close>

fun draws :: "(millis \<times> playback_event) list \<Rightarrow> (millis \<times> string) list" where
  "draws [] = []"
| "draws ((t, Respond svc callSid text rnd) # es) = (t, map base36 rnd) # draws es"
| "draws ((t, SetMeta callSid meta) # es) = draws es"

text \<open>
  Services whose outcome does not depend on the request: the synthesized bytes, the
  conferences in progress, and the outcomes of the three telephony updates.
\<close>

definition constantServices ::
  "bytes \<Rightarrow> string list \<Rightarrow> string + unit \<Rightarrow> string + unit \<Rightarrow> string + unit \<Rightarrow> services" where
  "constantServices audioBuf conferences r1 r2 r3 =
     \<lparr>synthesizeElevenlabs = (\<lambda>text. Inr audioBuf),
      conferencesList = (\<lambda>name. Inr conferences),
      conferenceUpdate = (\<lambda>sid url. r1),
      participantUpdate = (\<lambda>sid call url. r2),
      callUpdate = (\<lambda>call twiml. r3)\<rparr>"

subsection \<open>Notions used to state the announcer's properties\<close>

text \<open>
  The three conditions checked at the start of \<^verbatim>\<open>respondWithTts\<close>; the state after the blob
  has been stored; and the metadata read for a call.
\<close>

definition configured :: "config \<Rightarrow> call_id \<Rightarrow> bool" where
  "configured cfg callSid \<longleftrightarrow> twilioClient cfg \<and> truthy (PUBLIC_BASE_URL cfg) \<and> truthy callSid"

definition stored :: "playback_state \<Rightarrow> millis \<Rightarrow> nat list \<Rightarrow> string \<Rightarrow> bytes \<Rightarrow> playback_state" where
  "stored st now rnd text audioBuf =
     (request (Synthesize text) st)
       \<lparr>audioStore := (audioStore st)(blobId now rnd \<mapsto> audioBuf),
        blobTimers := blobTimers st @ [(now + 300000, blobId now rnd)]\<rparr>"

definition metaOf :: "playback_state \<Rightarrow> call_id \<Rightarrow> call_meta" where
  "metaOf st callSid = (case callMeta st callSid of None \<Rightarrow> emptyMeta | Some m \<Rightarrow> m)"

section \<open>Audio relay: queued frames are flushed in arrival order\<close>

lemma sendAudio_not_ready:
  "\<not> stt_ready c \<Longrightarrow> sendAudio c b = c\<lparr>stt_pending := stt_pending c @ [b]\<rparr>"
  by (simp add: sendAudio_def)

lemma foldl_sendAudio_not_ready:
  "\<not> stt_ready c \<Longrightarrow> foldl sendAudio c xs = c\<lparr>stt_pending := stt_pending c @ xs\<rparr>"
proof (induction xs arbitrary: c)
  case Nil
  then show ?case by simp
next
  case (Cons x xs)
  have "\<not> stt_ready (sendAudio c x)"
    using Cons.prems by (simp add: sendAudio_not_ready)
  from Cons.IH [OF this] show ?case
    using Cons.prems by (simp add: sendAudio_not_ready)
qed

lemma flushLoop_sends:
  "flushLoop c =
     c\<lparr>stt_pending := [],
       stt_wsSent := stt_wsSent c @ map (\<lambda>b. InputAudioChunk b False (stt_sampleRate c)) (stt_pending c)\<rparr>"
proof (induction c rule: flushLoop.induct)
  case (1 c)
  show ?case
  proof (cases "stt_pending c")
    case Nil
    then show ?thesis by (subst flushLoop.simps) simp
  next
    case (Cons buf rest)
    then show ?thesis
      using "1.IH" [OF Cons] by (subst flushLoop.simps) simp
  qed
qed

lemma foldl_sendAudio_ready:
  "stt_ready c \<Longrightarrow> stt_wsOpen c \<Longrightarrow>
   foldl sendAudio c ys =
     c\<lparr>stt_wsSent := stt_wsSent c @ map (\<lambda>b. InputAudioChunk b False (stt_sampleRate c)) ys\<rparr>"
proof (induction ys arbitrary: c)
  case Nil
  then show ?case by simp
next
  case (Cons y ys)
  let ?c' = "sendAudio c y"
  have c': "?c' = c\<lparr>stt_wsSent := stt_wsSent c @ [InputAudioChunk y False (stt_sampleRate c)]\<rparr>"
    using Cons.prems by (simp add: sendAudio_def)
  then have "stt_ready ?c'" "stt_wsOpen ?c'"
    using Cons.prems by simp_all
  from Cons.IH [OF this] show ?case
    by (simp add: c')
qed

text \<open>
  C4. While the client is not ready, every frame passed to \<^verbatim>\<open>sendAudio\<close> is appended to the
  pending queue and nothing is written to the socket. When the socket opens, the whole queue
  is written in arrival order, each frame once, and the queue is empty; frames that arrive
  afterwards are written after the flushed ones.
\<close>

theorem pending_frames_flushed_in_order:
  assumes "\<not> stt_ready c"
  shows "stt_pending (foldl sendAudio c xs) = stt_pending c @ xs
       \<and> stt_wsSent (foldl sendAudio c xs) = stt_wsSent c
       \<and> stt_pending (stt_onOpen (foldl sendAudio c xs)) = []
       \<and> map audio (stt_wsSent (stt_onOpen (foldl sendAudio c xs)))
           = map audio (stt_wsSent c) @ stt_pending c @ xs
       \<and> stt_pending (foldl sendAudio (stt_onOpen (foldl sendAudio c xs)) ys) = []
       \<and> map audio (stt_wsSent (foldl sendAudio (stt_onOpen (foldl sendAudio c xs)) ys))
           = map audio (stt_wsSent c) @ stt_pending c @ xs @ ys"
proof -
  let ?d = "c\<lparr>stt_ready := True, stt_wsOpen := True, stt_pending := [],
               stt_wsSent := stt_wsSent c
                 @ map (\<lambda>b. InputAudioChunk b False (stt_sampleRate c)) (stt_pending c @ xs)\<rparr>"
  have c1: "foldl sendAudio c xs = c\<lparr>stt_pending := stt_pending c @ xs\<rparr>"
    using assms by (rule foldl_sendAudio_not_ready)
  have c2: "stt_onOpen (c\<lparr>stt_pending := stt_pending c @ xs\<rparr>) = ?d"
    by (simp add: stt_onOpen_def flushPending_def flushLoop_sends)
  have c3: "foldl sendAudio ?d ys =
      ?d\<lparr>stt_wsSent := stt_wsSent ?d @ map (\<lambda>b. InputAudioChunk b False (stt_sampleRate ?d)) ys\<rparr>"
    by (rule foldl_sendAudio_ready) simp_all
  have m: "map (audio \<circ> (\<lambda>b. InputAudioChunk b False r)) zs = zs" for r zs
    by (induction zs) simp_all
  show ?thesis
    unfolding c1 c2 c3 by (simp add: m)
qed

theorem pending_frames_flushed_in_order_witness:
  "\<not> stt_ready (stt_new 8000)
   \<and> map audio (stt_wsSent (foldl sendAudio (stt_onOpen (foldl sendAudio (stt_new 8000)
        [[0x7f, 0xff], [0x01]])) [[0x02]]))
     = [[0x7f, 0xff], [0x01], [0x02]]"
  using pending_frames_flushed_in_order [of "stt_new 8000" "[[0x7f, 0xff], [0x01]]" "[[0x02]]"]
  by (simp add: stt_new_def)

section \<open>Wake debouncer: the throttle invariant\<close>

lemma throttle_inv_init: "throttle_inv wake_init"
  by (simp add: throttle_inv_def wake_init_def spaced_def)

lemma throttle_inv_fire:
  assumes "throttle_inv st" and "8000 \<le> now - lastWakeOr0 st sid"
    and "wakes st' = wakes st @ [WakeTrigger now sid text]"
    and "lastWake st' = (lastWake st)(sid \<mapsto> now)"
  shows "throttle_inv st'"
proof -
  have old: "wk_time w \<le> lastWakeOr0 st (wk_call w)" if "w \<in> set (wakes st)" for w
    using assms(1) that by (simp add: throttle_inv_def)
  have new: "lastWakeOr0 st' s = (if s = sid then now else lastWakeOr0 st s)" for s
    by (simp add: lastWakeOr0_def assms(4))
  have "wk_time w \<le> lastWakeOr0 st' (wk_call w)" if "w \<in> set (wakes st')" for w
    using that old [of w] assms(2) by (auto simp: assms(3) new)
  moreover have "spaced (wakes st')"
    using assms(1,2) old by (fastforce simp: assms(3) spaced_def throttle_inv_def sorted_wrt_append)
  ultimately show ?thesis by (simp add: throttle_inv_def)
qed

lemma throttle_inv_same:
  "throttle_inv st \<Longrightarrow> wakes st' = wakes st \<Longrightarrow> lastWake st' = lastWake st \<Longrightarrow> throttle_inv st'"
  by (simp add: throttle_inv_def lastWakeOr0_def)

lemma handleWake_throttled:
  "now - lastWakeOr0 st sid < 8000 \<Longrightarrow> handleWake st now sid text c = st"
  by (simp add: handleWake_def)

lemma handleWake_committed_fields:
  assumes "\<not> now - lastWakeOr0 st sid < 8000"
  shows "wakes (handleWake st now sid text True) = wakes st @ [WakeTrigger now sid text]"
    and "lastWake (handleWake st now sid text True) = (lastWake st)(sid \<mapsto> now)"
  using assms
  by (simp_all add: handleWake_def doWake_def clearTimeout_def Let_def split: option.splits)

lemma handleWake_partial_fields:
  shows "wakes (handleWake st now sid text False) = wakes st"
    and "lastWake (handleWake st now sid text False) = lastWake st"
  by (simp_all add: handleWake_def setTimeout_def clearTimeout_def Let_def split: option.splits)

lemma handleWake_throttle_inv:
  assumes "throttle_inv st"
  shows "throttle_inv (handleWake st now sid text c)"
proof (cases "now - lastWakeOr0 st sid < 8000")
  case True
  then show ?thesis using assms by (simp add: handleWake_throttled)
next
  case elapsed: False
  show ?thesis
  proof (cases c)
    case True
    have "throttle_inv (handleWake st now sid text True)"
      using assms
    proof (rule throttle_inv_fire)
      show "8000 \<le> now - lastWakeOr0 st sid" using elapsed by simp
    qed (rule handleWake_committed_fields [OF elapsed])+
    then show ?thesis using True by simp
  next
    case False
    have "throttle_inv (handleWake st now sid text False)"
      by (rule throttle_inv_same [OF assms handleWake_partial_fields])
    then show ?thesis using False by simp
  qed
qed

lemma timerCallback_throttle_inv:
  assumes "throttle_inv st"
  shows "throttle_inv (timerCallback st now sid)"
proof (cases "partialWakeTimers st sid")
  case None
  then show ?thesis
    using assms by (auto simp: timerCallback_def Let_def intro: throttle_inv_same)
next
  case (Some p)
  show ?thesis
  proof (cases "now - lastWakeOr0 st sid < 8000")
    case True
    then show ?thesis
      using assms Some
      by (auto simp: timerCallback_def Let_def lastWakeOr0_def intro: throttle_inv_same)
  next
    case False
    show ?thesis
      by (rule throttle_inv_fire [OF assms, of now sid _ "snd p"])
         (use False Some in \<open>simp_all add: timerCallback_def Let_def lastWakeOr0_def doWake_def\<close>)
  qed
qed

lemma fireTimers_throttle_inv:
  "throttle_inv st \<Longrightarrow> throttle_inv (fireTimers es st)"
  by (induction es arbitrary: st) (simp_all add: timerCallback_throttle_inv)

lemma advance_throttle_inv:
  "throttle_inv st \<Longrightarrow> throttle_inv (advance t st)"
  unfolding advance_def
  by (rule fireTimers_throttle_inv) (erule throttle_inv_same, simp_all)

lemma run_throttle_inv:
  "throttle_inv st \<Longrightarrow> throttle_inv (run es st)"
  by (induction es arbitrary: st) (simp_all add: handleWake_throttle_inv advance_throttle_inv)

lemma run_append: "run (xs @ ys) st = run ys (run xs st)"
  by (induction xs arbitrary: st) simp_all

section \<open>Wake debouncer: timer bookkeeping\<close>

lemma timerCallback_fields:
  "timers (timerCallback st now s) = timers st"
  "nextTimer (timerCallback st now s) = nextTimer st"
  "partialWakeTimers (timerCallback st now s) = (partialWakeTimers st)(s := None)"
  by (simp_all add: timerCallback_def doWake_def Let_def split: option.splits)

lemma timerCallback_other:
  assumes "s \<noteq> sid"
  shows "lastWake (timerCallback st now s) sid = lastWake st sid"
    and "wakesOf sid (timerCallback st now s) = wakesOf sid st"
  using assms
  by (simp_all add: timerCallback_def doWake_def wakesOf_def Let_def split: option.splits)

lemma fireTimers_fields:
  "timers (fireTimers es st) = timers st"
  "nextTimer (fireTimers es st) = nextTimer st"
  by (induction es arbitrary: st) (simp_all add: timerCallback_fields)

lemma fireTimers_append:
  "fireTimers (xs @ ys) st = fireTimers ys (fireTimers xs st)"
  by (induction xs arbitrary: st) simp_all

lemma fireTimers_other:
  assumes "\<forall>e \<in> set es. tm_call e \<noteq> sid"
  shows "lastWake (fireTimers es st) sid = lastWake st sid
       \<and> partialWakeTimers (fireTimers es st) sid = partialWakeTimers st sid
       \<and> wakesOf sid (fireTimers es st) = wakesOf sid st"
  using assms
  by (induction es arbitrary: st) (auto simp: timerCallback_other timerCallback_fields)

lemma pending_inv_mem:
  assumes "pending_inv es st" and "e \<in> set es"
  shows "tm_id e < nextTimer st"
    and "\<exists>x. partialWakeTimers st (tm_call e) = Some (tm_id e, x)"
  using assms by (simp_all add: pending_inv_def)

lemma pending_inv_Cons:
  assumes "pending_inv (e # es) st" and "e' \<in> set es"
  shows "tm_call e' \<noteq> tm_call e"
proof
  assume same: "tm_call e' = tm_call e"
  have "e \<in> set (e # es)" "e' \<in> set (e # es)" using assms(2) by simp_all
  from pending_inv_mem(2) [OF assms(1) this(1)] pending_inv_mem(2) [OF assms(1) this(2)] same
  have "tm_id e' = tm_id e" by auto
  moreover from assms have "tm_id e \<notin> tm_id ` set es"
    by (simp add: pending_inv_def)
  moreover have "tm_id e' \<in> tm_id ` set es" using assms(2) by (rule imageI)
  ultimately show False by simp
qed

lemma fireTimers_timers_inv:
  "pending_inv (es @ timers st) st \<Longrightarrow> timers_inv (fireTimers es st)"
proof (induction es arbitrary: st)
  case Nil
  then show ?case by (simp add: timers_inv_def)
next
  case (Cons e es)
  let ?st = "timerCallback st (tm_due e) (tm_call e)"
  from Cons.prems have p: "pending_inv (e # (es @ timers st)) st" by simp
  have "pending_inv (es @ timers ?st) ?st"
    unfolding pending_inv_def timerCallback_fields
  proof (intro conjI ballI)
    show "distinct (map tm_id (es @ timers st))"
      using p by (simp add: pending_inv_def)
  next
    fix e' assume e': "e' \<in> set (es @ timers st)"
    then have m: "e' \<in> set (e # (es @ timers st))" by simp
    show "tm_id e' < nextTimer st"
      by (rule pending_inv_mem(1) [OF p m])
    have "tm_call e' \<noteq> tm_call e"
      by (rule pending_inv_Cons [OF p e'])
    with pending_inv_mem(2) [OF p m]
    show "\<exists>x. ((partialWakeTimers st)(tm_call e := None)) (tm_call e') = Some (tm_id e', x)"
      by simp
  qed
  from Cons.IH [OF this] show ?case by simp
qed

lemma distinct_map_partition:
  "distinct (map f xs) \<Longrightarrow> distinct (map f ([x \<leftarrow> xs. P x] @ [x \<leftarrow> xs. \<not> P x]))"
  by (induction xs) auto

lemma advance_timers_inv:
  assumes "timers_inv st"
  shows "timers_inv (advance t st)"
proof -
  let ?P = "\<lambda>e. tm_due e \<le> t"
  let ?st = "st\<lparr>timers := [e \<leftarrow> timers st. \<not> ?P e]\<rparr>"
  have d: "distinct (map tm_id ([e \<leftarrow> timers st. ?P e] @ [e \<leftarrow> timers st. \<not> ?P e]))"
    using assms by (intro distinct_map_partition) (simp add: timers_inv_def pending_inv_def)
  have "pending_inv ([e \<leftarrow> timers st. ?P e] @ timers ?st) ?st"
    unfolding pending_inv_def
  proof (intro conjI ballI)
    show "distinct (map tm_id ([e \<leftarrow> timers st. ?P e] @ timers ?st))"
      using d by simp
  next
    fix e assume "e \<in> set ([e \<leftarrow> timers st. ?P e] @ timers ?st)"
    then have "e \<in> set (timers st)" by auto
    with assms show "tm_id e < nextTimer ?st"
      and "\<exists>x. partialWakeTimers ?st (tm_call e) = Some (tm_id e, x)"
      by (simp_all add: timers_inv_def pending_inv_def)
  qed
  then show ?thesis
    unfolding advance_def by (rule fireTimers_timers_inv)
qed

lemma timers_inv_init: "timers_inv wake_init"
  by (simp add: timers_inv_def pending_inv_def wake_init_def)

lemma timers_inv_call:
  assumes "timers_inv st" and "e \<in> set (timers st)"
  shows "\<exists>x. partialWakeTimers st (tm_call e) = Some (tm_id e, x)" and "tm_id e < nextTimer st"
  using assms by (auto simp: timers_inv_def pending_inv_def)

lemma handleWake_partial_timers:
  assumes "\<not> now - lastWakeOr0 st sid < 8000"
  shows "timers (handleWake st now sid text False)
           = cleared sid st @ [Timer (nextTimer st) (now + 2500) sid]"
    and "partialWakeTimers (handleWake st now sid text False)
           = (partialWakeTimers st)(sid \<mapsto> (nextTimer st, text))"
    and "nextTimer (handleWake st now sid text False) = Suc (nextTimer st)"
  using assms
  by (simp_all add: handleWake_def setTimeout_def clearTimeout_def cleared_def Let_def
        split: option.splits)

lemma handleWake_committed_timers:
  assumes "\<not> now - lastWakeOr0 st sid < 8000"
  shows "timers (handleWake st now sid text True) = cleared sid st"
    and "partialWakeTimers (handleWake st now sid text True) = (partialWakeTimers st)(sid := None)"
    and "nextTimer (handleWake st now sid text True) = nextTimer st"
  using assms
  by (auto simp: handleWake_def doWake_def clearTimeout_def cleared_def Let_def
        split: option.splits)

lemma cleared_subset: "set (cleared sid st) \<subseteq> set (timers st)"
  by (auto simp: cleared_def split: option.splits)

lemma cleared_distinct:
  "distinct (map tm_id (timers st)) \<Longrightarrow> distinct (map tm_id (cleared sid st))"
  by (simp add: cleared_def distinct_map_filter split: option.splits)

lemma cleared_other:
  assumes "timers_inv st" and "e \<in> set (cleared sid st)"
  shows "tm_call e \<noteq> sid"
proof
  assume c: "tm_call e = sid"
  from assms(2) cleared_subset have e: "e \<in> set (timers st)" by blast
  from timers_inv_call(1) [OF assms(1) e] c obtain x
    where x: "partialWakeTimers st sid = Some (tm_id e, x)" by auto
  with assms(2) show False by (simp add: cleared_def)
qed

lemma handleWake_timers_inv:
  assumes "timers_inv st"
  shows "timers_inv (handleWake st now sid text c)"
proof (cases "now - lastWakeOr0 st sid < 8000")
  case True
  then show ?thesis using assms by (simp add: handleWake_throttled)
next
  case elapsed: False
  have old: "tm_id e < nextTimer st \<and> tm_call e \<noteq> sid
      \<and> (\<exists>x. partialWakeTimers st (tm_call e) = Some (tm_id e, x))"
    if "e \<in> set (cleared sid st)" for e
  proof -
    from that cleared_subset have e: "e \<in> set (timers st)" by blast
    show ?thesis
      using timers_inv_call [OF assms e] cleared_other [OF assms that] by simp
  qed
  have d: "distinct (map tm_id (cleared sid st))"
    using assms by (intro cleared_distinct) (simp add: timers_inv_def pending_inv_def)
  show ?thesis
  proof (cases c)
    case True
    have "timers_inv (handleWake st now sid text True)"
      unfolding timers_inv_def pending_inv_def handleWake_committed_timers [OF elapsed]
      using d old by auto
    then show ?thesis using True by simp
  next
    case False
    have fresh: "nextTimer st \<notin> tm_id ` set (cleared sid st)"
      using old by force
    have "timers_inv (handleWake st now sid text False)"
      unfolding timers_inv_def pending_inv_def handleWake_partial_timers [OF elapsed]
      using d old fresh by (auto simp: less_Suc_eq)
    then show ?thesis using False by simp
  qed
qed

lemma run_timers_inv:
  "timers_inv st \<Longrightarrow> timers_inv (run es st)"
  by (induction es arbitrary: st) (simp_all add: handleWake_timers_inv advance_timers_inv)

section \<open>Wake debouncer: the recorded handles\<close>

lemma records_inv_init: "records_inv wake_init"
  by (simp add: records_inv_def wake_init_def)

lemma records_inv_delete:
  assumes "records_inv st" and "nextTimer st' = nextTimer st"
    and "partialWakeTimers st' = (partialWakeTimers st)(s := None)"
  shows "records_inv st'"
  unfolding records_inv_def assms(2,3)
proof (intro conjI allI impI)
  fix a t x assume "((partialWakeTimers st)(s := None)) a = Some (t, x)"
  then have "partialWakeTimers st a = Some (t, x)" by (simp split: if_splits)
  with assms(1) show "t < nextTimer st" by (auto simp: records_inv_def)
next
  fix a b t x y
  assume "((partialWakeTimers st)(s := None)) a = Some (t, x)
      \<and> ((partialWakeTimers st)(s := None)) b = Some (t, y)"
  then have "partialWakeTimers st a = Some (t, x)" "partialWakeTimers st b = Some (t, y)"
    by (simp_all split: if_splits)
  with assms(1) show "a = b" unfolding records_inv_def by blast
qed

lemma records_inv_same:
  assumes "records_inv st" and "nextTimer st' = nextTimer st"
    and "partialWakeTimers st' = partialWakeTimers st"
  shows "records_inv st'"
  using assms by (simp add: records_inv_def)

lemma records_inv_add:
  assumes "records_inv st" and "nextTimer st' = Suc (nextTimer st)"
    and "partialWakeTimers st' = (partialWakeTimers st)(s \<mapsto> (nextTimer st, x))"
  shows "records_inv st'"
  unfolding records_inv_def assms(2,3)
proof (intro conjI allI impI)
  fix a t y assume "((partialWakeTimers st)(s \<mapsto> (nextTimer st, x))) a = Some (t, y)"
  then have "t = nextTimer st \<or> partialWakeTimers st a = Some (t, y)"
    by (simp split: if_splits)
  with assms(1) show "t < Suc (nextTimer st)"
    by (auto simp: records_inv_def less_Suc_eq)
next
  fix a b t y z
  assume h: "((partialWakeTimers st)(s \<mapsto> (nextTimer st, x))) a = Some (t, y)
      \<and> ((partialWakeTimers st)(s \<mapsto> (nextTimer st, x))) b = Some (t, z)"
  have old: "t < nextTimer st" if "partialWakeTimers st c = Some (t, w)" for c w
    using assms(1) that by (auto simp: records_inv_def)
  show "a = b"
  proof (cases "a = s")
    case True
    with h have t: "t = nextTimer st" by simp
    show ?thesis
    proof (cases "b = s")
      case True
      with \<open>a = s\<close> show ?thesis by simp
    next
      case False
      with h have "partialWakeTimers st b = Some (t, z)" by simp
      from old [OF this] t show ?thesis by simp
    qed
  next
    case False
    with h have a: "partialWakeTimers st a = Some (t, y)" by simp
    show ?thesis
    proof (cases "b = s")
      case True
      with h have "t = nextTimer st" by simp
      with old [OF a] show ?thesis by simp
    next
      case False
      with h have "partialWakeTimers st b = Some (t, z)" by simp
      with a assms(1) show ?thesis unfolding records_inv_def by blast
    qed
  qed
qed

lemma handleWake_records_inv:
  assumes "records_inv st"
  shows "records_inv (handleWake st now sid text c)"
proof (cases "now - lastWakeOr0 st sid < 8000")
  case True
  then show ?thesis using assms by (simp add: handleWake_throttled)
next
  case elapsed: False
  show ?thesis
  proof (cases c)
    case True
    have "records_inv (handleWake st now sid text True)"
      by (rule records_inv_delete [OF assms handleWake_committed_timers(3,2) [OF elapsed]])
    then show ?thesis using True by simp
  next
    case False
    have "records_inv (handleWake st now sid text False)"
      by (rule records_inv_add [OF assms handleWake_partial_timers(3,2) [OF elapsed]])
    then show ?thesis using False by simp
  qed
qed

lemma timerCallback_records_inv: "records_inv st \<Longrightarrow> records_inv (timerCallback st now s)"
  by (erule records_inv_delete) (simp_all add: timerCallback_fields)

lemma fireTimers_records_inv: "records_inv st \<Longrightarrow> records_inv (fireTimers es st)"
  by (induction es arbitrary: st) (simp_all add: timerCallback_records_inv)

lemma advance_records_inv: "records_inv st \<Longrightarrow> records_inv (advance t st)"
  unfolding advance_def
  by (rule fireTimers_records_inv) (erule records_inv_same, simp_all)

lemma run_records_inv: "records_inv st \<Longrightarrow> records_inv (run es st)"
  by (induction es arbitrary: st) (simp_all add: handleWake_records_inv advance_records_inv)

lemma cleared_keeps_other:
  assumes "timers_inv st" and "records_inv st" and "s \<noteq> sid"
  shows "[e \<leftarrow> cleared s st. tm_call e = sid] = timersOf sid st"
proof (cases "partialWakeTimers st s")
  case None
  then show ?thesis by (simp add: cleared_def timersOf_def)
next
  case (Some r)
  obtain tid x where r: "r = (tid, x)" by (cases r)
  have "[e \<leftarrow> [e \<leftarrow> timers st. tm_id e \<noteq> tid]. tm_call e = sid] = [e \<leftarrow> timers st. tm_call e = sid]"
    unfolding filter_filter
  proof (rule filter_cong [OF refl])
    fix e assume e: "e \<in> set (timers st)"
    show "(tm_id e \<noteq> tid \<and> tm_call e = sid) = (tm_call e = sid)"
    proof (cases "tm_call e = sid")
      case True
      from timers_inv_call(1) [OF assms(1) e] True obtain y
        where "partialWakeTimers st sid = Some (tm_id e, y)" by auto
      with Some r assms(2,3) have "tm_id e \<noteq> tid"
        unfolding records_inv_def by blast
      with True show ?thesis by simp
    next
      case False
      then show ?thesis by simp
    qed
  qed
  then show ?thesis by (simp add: cleared_def timersOf_def Some r)
qed

lemma handleWake_other_call:
  assumes "timers_inv st" and "records_inv st" and "s \<noteq> sid"
  shows "lastWake (handleWake st now s x c) sid = lastWake st sid"
    and "partialWakeTimers (handleWake st now s x c) sid = partialWakeTimers st sid"
    and "wakesOf sid (handleWake st now s x c) = wakesOf sid st"
    and "timersOf sid (handleWake st now s x c) = timersOf sid st"
proof -
  have "lastWake (handleWake st now s x c) sid = lastWake st sid
      \<and> partialWakeTimers (handleWake st now s x c) sid = partialWakeTimers st sid
      \<and> wakesOf sid (handleWake st now s x c) = wakesOf sid st
      \<and> timersOf sid (handleWake st now s x c) = timersOf sid st"
  proof (cases "now - lastWakeOr0 st s < 8000")
    case True
    then show ?thesis by (simp add: handleWake_throttled)
  next
    case elapsed: False
    note k = cleared_keeps_other [OF assms]
    show ?thesis
    proof (cases c)
      case True
      have "lastWake (handleWake st now s x True) sid = lastWake st sid
          \<and> partialWakeTimers (handleWake st now s x True) sid = partialWakeTimers st sid
          \<and> wakesOf sid (handleWake st now s x True) = wakesOf sid st
          \<and> timersOf sid (handleWake st now s x True) = timersOf sid st"
        unfolding wakesOf_def timersOf_def
          handleWake_committed_fields [OF elapsed] handleWake_committed_timers [OF elapsed]
        using assms(3) k by (simp add: timersOf_def)
      with True show ?thesis by simp
    next
      case False
      have "lastWake (handleWake st now s x False) sid = lastWake st sid
          \<and> partialWakeTimers (handleWake st now s x False) sid = partialWakeTimers st sid
          \<and> wakesOf sid (handleWake st now s x False) = wakesOf sid st
          \<and> timersOf sid (handleWake st now s x False) = timersOf sid st"
        unfolding wakesOf_def timersOf_def
          handleWake_partial_fields handleWake_partial_timers [OF elapsed]
        using assms(3) k by (simp add: timersOf_def)
      with False show ?thesis by simp
    qed
  qed
  then show "lastWake (handleWake st now s x c) sid = lastWake st sid"
    and "partialWakeTimers (handleWake st now s x c) sid = partialWakeTimers st sid"
    and "wakesOf sid (handleWake st now s x c) = wakesOf sid st"
    and "timersOf sid (handleWake st now s x c) = timersOf sid st"
    by simp_all
qed

section \<open>Wake debouncer: what the passing of time does to one call\<close>

lemma filter_swap: "filter P (filter Q xs) = filter Q (filter P xs)"
  by (induction xs) simp_all

lemma advance_fields:
  "timers (advance t st) = [e \<leftarrow> timers st. \<not> tm_due e \<le> t]"
  "nextTimer (advance t st) = nextTimer st"
  by (simp_all add: advance_def fireTimers_fields)

lemma advance_not_due:
  assumes "\<forall>e \<in> set (timers st). tm_call e = sid \<longrightarrow> t < tm_due e"
  shows "lastWake (advance t st) sid = lastWake st sid"
    and "partialWakeTimers (advance t st) sid = partialWakeTimers st sid"
    and "wakesOf sid (advance t st) = wakesOf sid st"
    and "timersOf sid (advance t st) = timersOf sid st"
proof -
  let ?due = "[e \<leftarrow> timers st. tm_due e \<le> t]"
  let ?st = "st\<lparr>timers := [e \<leftarrow> timers st. \<not> tm_due e \<le> t]\<rparr>"
  have "\<forall>e \<in> set ?due. tm_call e \<noteq> sid"
    using assms by auto
  from fireTimers_other [OF this, of ?st]
  show "lastWake (advance t st) sid = lastWake st sid"
    and "partialWakeTimers (advance t st) sid = partialWakeTimers st sid"
    and "wakesOf sid (advance t st) = wakesOf sid st"
    by (simp_all add: advance_def wakesOf_def)
  show "timersOf sid (advance t st) = timersOf sid st"
    unfolding timersOf_def advance_fields filter_filter
    by (rule filter_cong) (use assms in auto)
qed

lemma timerCallback_fires:
  assumes "partialWakeTimers st sid = Some (tid, x)" and "8000 \<le> now - lastWakeOr0 st sid"
  shows "timerCallback st now sid =
           st\<lparr>partialWakeTimers := (partialWakeTimers st)(sid := None),
              lastWake := (lastWake st)(sid \<mapsto> now),
              wakes := wakes st @ [WakeTrigger now sid x]\<rparr>"
  using assms by (simp add: timerCallback_def doWake_def lastWakeOr0_def Let_def)

lemma advance_fires:
  assumes "timersOf sid st = [Timer tid d sid]"
    and "partialWakeTimers st sid = Some (tid, x)"
    and "d \<le> t" and "8000 \<le> d - lastWakeOr0 st sid"
  shows "wakesOf sid (advance t st) = wakesOf sid st @ [WakeTrigger d sid x]"
    and "lastWake (advance t st) sid = Some d"
    and "partialWakeTimers (advance t st) sid = None"
    and "timersOf sid (advance t st) = []"
proof -
  let ?due = "[e \<leftarrow> timers st. tm_due e \<le> t]"
  let ?st = "st\<lparr>timers := [e \<leftarrow> timers st. \<not> tm_due e \<le> t]\<rparr>"
  have "[e \<leftarrow> ?due. tm_call e = sid] = [e \<leftarrow> timersOf sid st. tm_due e \<le> t]"
    unfolding timersOf_def by (rule filter_swap)
  also have "\<dots> = [Timer tid d sid]"
    using assms(1,3) by simp
  finally have "[e \<leftarrow> ?due. tm_call e = sid] = [Timer tid d sid]" .
  then have "\<exists>us vs. ?due = us @ Timer tid d sid # vs \<and> (\<forall>u\<in>set us. \<not> tm_call u = sid)
      \<and> tm_call (Timer tid d sid) = sid \<and> [] = [e \<leftarrow> vs. tm_call e = sid]"
    by (rule iffD1 [OF filter_eq_Cons_iff])
  then obtain us vs where due: "?due = us @ Timer tid d sid # vs"
    and us: "\<forall>u \<in> set us. tm_call u \<noteq> sid" and vs: "[] = [e \<leftarrow> vs. tm_call e = sid]"
    by (elim exE conjE)
  have vs': "\<forall>v \<in> set vs. tm_call v \<noteq> sid"
    using vs [symmetric] by (simp add: filter_empty_conv)
  let ?s1 = "fireTimers us ?st"
  let ?s2 = "timerCallback ?s1 d sid"
  have s1: "lastWake ?s1 sid = lastWake st sid" "partialWakeTimers ?s1 sid = Some (tid, x)"
    "wakesOf sid ?s1 = wakesOf sid st"
    using fireTimers_other [OF us, of ?st] assms(2) by (simp_all add: wakesOf_def)
  have "8000 \<le> d - lastWakeOr0 ?s1 sid"
    using assms(4) s1(1) by (simp add: lastWakeOr0_def)
  note s2 = timerCallback_fires [OF s1(2) this]
  have adv: "advance t st = fireTimers vs ?s2"
    by (simp add: advance_def due fireTimers_append)
  have s2w: "wakesOf sid ?s2 = wakesOf sid st @ [WakeTrigger d sid x]"
    using s1(3) by (simp add: s2 wakesOf_def)
  have s2l: "lastWake ?s2 sid = Some d" "partialWakeTimers ?s2 sid = None"
    by (simp_all add: s2)
  from fireTimers_other [OF vs', of ?s2] s2w s2l
  show "wakesOf sid (advance t st) = wakesOf sid st @ [WakeTrigger d sid x]"
    and "lastWake (advance t st) sid = Some d"
    and "partialWakeTimers (advance t st) sid = None"
    by (simp_all add: adv)
  show "timersOf sid (advance t st) = []"
  proof -
    have "timersOf sid (advance t st) = [e \<leftarrow> timersOf sid st. \<not> tm_due e \<le> t]"
      unfolding timersOf_def advance_fields by (rule filter_swap)
    then show ?thesis using assms(1,3) by simp
  qed
qed

section \<open>Wake debouncer: a burst of partial transcripts\<close>

lemma timersOf_mem: "e \<in> set (timers st) \<Longrightarrow> tm_call e = sid \<Longrightarrow> e \<in> set (timersOf sid st)"
  by (simp add: timersOf_def)

lemma partial_step:
  fixes x :: string
  assumes inv: "timers_inv st"
    and elapsed: "8000 \<le> t - lastWakeOr0 st sid"
    and notdue: "\<forall>e \<in> set (timers st). tm_call e = sid \<longrightarrow> t < tm_due e"
  defines "st1 \<equiv> handleWake (advance t st) t sid x False"
  shows "timers_inv st1"
    and "lastWake st1 sid = lastWake st sid"
    and "wakesOf sid st1 = wakesOf sid st"
    and "\<exists>tid. timersOf sid st1 = [Timer tid (t + 2500) sid]
           \<and> partialWakeTimers st1 sid = Some (tid, x)"
proof -
  let ?sa = "advance t st"
  note a = advance_not_due [OF notdue]
  have inva: "timers_inv ?sa" by (rule advance_timers_inv [OF inv])
  have el: "\<not> t - lastWakeOr0 ?sa sid < 8000"
    using elapsed a(1) by (simp add: lastWakeOr0_def)
  note hw = handleWake_partial_timers [OF el, of x]
  show "timers_inv st1"
    unfolding st1_def by (rule handleWake_timers_inv [OF inva])
  show "lastWake st1 sid = lastWake st sid"
    by (simp add: st1_def handleWake_partial_fields a)
  show "wakesOf sid st1 = wakesOf sid st"
    using a(3) by (simp add: st1_def wakesOf_def handleWake_partial_fields)
  have "[e \<leftarrow> cleared sid ?sa. tm_call e = sid] = []"
    using cleared_other [OF inva] by (auto simp: filter_empty_conv)
  then have "timersOf sid st1 = [Timer (nextTimer ?sa) (t + 2500) sid]"
    by (simp add: st1_def timersOf_def hw)
  moreover have "partialWakeTimers st1 sid = Some (nextTimer ?sa, x)"
    by (simp add: st1_def hw)
  ultimately show "\<exists>tid. timersOf sid st1 = [Timer tid (t + 2500) sid]
           \<and> partialWakeTimers st1 sid = Some (tid, x)"
    by blast
qed

lemma timersOf_notdue:
  assumes "timersOf sid st = [Timer tid d sid]" and "t < d"
  shows "\<forall>e \<in> set (timers st). tm_call e = sid \<longrightarrow> t < tm_due e"
proof (intro ballI impI)
  fix e assume "e \<in> set (timers st)" "tm_call e = sid"
  then have "e \<in> set (timersOf sid st)" by (rule timersOf_mem)
  then show "t < tm_due e" using assms by simp
qed

lemma timersOf_empty_notdue:
  assumes "timersOf sid st = []"
  shows "\<forall>e \<in> set (timers st). tm_call e = sid \<longrightarrow> t < tm_due e"
proof (intro ballI impI)
  fix e assume "e \<in> set (timers st)" "tm_call e = sid"
  then have "e \<in> set (timersOf sid st)" by (rule timersOf_mem)
  then show "t < tm_due e" using assms by simp
qed

section \<open>Wake debouncer: a burst among the transcripts of other calls\<close>

lemma step_other:
  assumes "timers_inv st" and "records_inv st" and "tr_call e \<noteq> sid"
    and "\<forall>t \<in> set (timers st). tm_call t = sid \<longrightarrow> tr_time e < tm_due t"
  shows "timers_inv (run [e] st)" and "records_inv (run [e] st)"
    and "lastWake (run [e] st) sid = lastWake st sid"
    and "partialWakeTimers (run [e] st) sid = partialWakeTimers st sid"
    and "wakesOf sid (run [e] st) = wakesOf sid st"
    and "timersOf sid (run [e] st) = timersOf sid st"
proof -
  let ?sa = "advance (tr_time e) st"
  have ti: "timers_inv ?sa" by (rule advance_timers_inv [OF assms(1)])
  have ri: "records_inv ?sa" by (rule advance_records_inv [OF assms(2)])
  note a = advance_not_due [OF assms(4)]
  note h = handleWake_other_call [OF ti ri assms(3)]
  show "timers_inv (run [e] st)" by (simp add: handleWake_timers_inv ti)
  show "records_inv (run [e] st)" by (simp add: handleWake_records_inv ri)
  show "lastWake (run [e] st) sid = lastWake st sid" by (simp add: h a)
  show "partialWakeTimers (run [e] st) sid = partialWakeTimers st sid" by (simp add: h a)
  show "wakesOf sid (run [e] st) = wakesOf sid st" by (simp add: h a)
  show "timersOf sid (run [e] st) = timersOf sid st" by (simp add: h a)
qed

lemma run_Cons: "run (e # es) st = run es (run [e] st)"
  by simp

lemma idle_others:
  assumes "timers_inv st" and "records_inv st" and "timersOf sid st = []"
    and "\<forall>e \<in> set tr. tr_call e \<noteq> sid"
  shows "wakesOf sid (advance T (run tr st)) = wakesOf sid st"
  using assms
proof (induction tr arbitrary: st)
  case Nil
  from advance_not_due(3) [OF timersOf_empty_notdue [OF Nil(3)], of T] show ?case by simp
next
  case (Cons e tr)
  from Cons.prems(4) have e: "tr_call e \<noteq> sid" and rest: "\<forall>e \<in> set tr. tr_call e \<noteq> sid"
    by simp_all
  note s = step_other [OF Cons.prems(1,2) e timersOf_empty_notdue [OF Cons.prems(3)]]
  have "wakesOf sid (advance T (run tr (run [e] st))) = wakesOf sid (run [e] st)"
    by (rule Cons.IH [OF s(1,2) _ rest]) (simp only: s(6) Cons.prems(3))
  then show ?case
    by (simp only: run_Cons [of e tr] s(5))
qed

lemma armed_others:
  assumes "timers_inv st" and "records_inv st"
    and "timersOf sid st = [Timer tid d sid]" and "partialWakeTimers st sid = Some (tid, x)"
    and "8000 \<le> d - lastWakeOr0 st sid"
    and "\<forall>e \<in> set tr. tr_call e \<noteq> sid" and "\<forall>e \<in> set tr. tr_time e \<le> T"
  shows "(T < d \<longrightarrow>
            wakesOf sid (advance T (run tr st)) = wakesOf sid st
            \<and> timersOf sid (advance T (run tr st)) = [Timer tid d sid]
            \<and> partialWakeTimers (advance T (run tr st)) sid = Some (tid, x))
       \<and> (d \<le> T \<longrightarrow>
            wakesOf sid (advance T (run tr st)) = wakesOf sid st @ [WakeTrigger d sid x])"
  using assms
proof (induction tr arbitrary: st)
  case Nil
  have "T < d \<Longrightarrow> ?case"
    using advance_not_due [OF timersOf_notdue [OF Nil(3)], of T] Nil(3,4) by simp
  moreover have "d \<le> T \<Longrightarrow> ?case"
    using advance_fires(1) [OF Nil(3,4) _ Nil(5), of T] by simp
  ultimately show ?case by linarith
next
  case (Cons e tr)
  from Cons.prems(6,7) have e: "tr_call e \<noteq> sid" and eT: "tr_time e \<le> T"
    and rest: "\<forall>e \<in> set tr. tr_call e \<noteq> sid" "\<forall>e \<in> set tr. tr_time e \<le> T"
    by simp_all
  show ?case
  proof (cases "tr_time e < d")
    case True
    note s = step_other [OF Cons.prems(1,2) e timersOf_notdue [OF Cons.prems(3) True]]
    have l: "lastWakeOr0 (run [e] st) sid = lastWakeOr0 st sid"
      by (simp only: lastWakeOr0_def s(3))
    have "(T < d \<longrightarrow>
            wakesOf sid (advance T (run tr (run [e] st))) = wakesOf sid (run [e] st)
            \<and> timersOf sid (advance T (run tr (run [e] st))) = [Timer tid d sid]
            \<and> partialWakeTimers (advance T (run tr (run [e] st))) sid = Some (tid, x))
       \<and> (d \<le> T \<longrightarrow>
            wakesOf sid (advance T (run tr (run [e] st)))
              = wakesOf sid (run [e] st) @ [WakeTrigger d sid x])"
    proof (rule Cons.IH [OF s(1,2) _ _ _ rest])
      show "timersOf sid (run [e] st) = [Timer tid d sid]" by (simp only: s(6) Cons.prems(3))
      show "partialWakeTimers (run [e] st) sid = Some (tid, x)" by (simp only: s(4) Cons.prems(4))
      show "8000 \<le> d - lastWakeOr0 (run [e] st) sid" by (simp only: l Cons.prems(5))
    qed
    then show ?thesis
      by (simp only: run_Cons [of e tr] s(5))
  next
    case False
    then have dt: "d \<le> tr_time e" and dT: "d \<le> T" using eT by simp_all
    let ?sa = "advance (tr_time e) st"
    note f = advance_fires [OF Cons.prems(3,4) dt Cons.prems(5)]
    have ti: "timers_inv ?sa" by (rule advance_timers_inv [OF Cons.prems(1)])
    have ri: "records_inv ?sa" by (rule advance_records_inv [OF Cons.prems(2)])
    note h = handleWake_other_call [OF ti ri e]
    have ti1: "timers_inv (run [e] st)" by (simp add: handleWake_timers_inv ti)
    have ri1: "records_inv (run [e] st)" by (simp add: handleWake_records_inv ri)
    have w1: "wakesOf sid (run [e] st) = wakesOf sid st @ [WakeTrigger d sid x]"
      by (simp add: h f)
    have t1: "timersOf sid (run [e] st) = []"
      by (simp add: h f)
    have "wakesOf sid (advance T (run tr (run [e] st))) = wakesOf sid (run [e] st)"
      by (rule idle_others [OF ti1 ri1 t1 rest(1)])
    then show ?thesis
      using dT by (simp only: run_Cons [of e tr] w1) simp
  qed
qed

lemma partials_Cons: "partials sid (p # ps) = Transcript (fst p) sid (snd p) False # partials sid ps"
  by (simp add: partials_def)

lemma partials_Nil: "partials sid [] = []"
  by (simp add: partials_def)

lemma mixed_burst:
  assumes "timers_inv st" and "records_inv st"
    and "sorted (map tr_time tr)"
    and "[e \<leftarrow> tr. tr_call e = sid] = partials sid ps" and "ps \<noteq> []"
    and "close_gaps (map fst ps)"
    and "8000 \<le> fst (hd ps) - lastWakeOr0 st sid"
    and "\<forall>t \<in> set (timers st). tm_call t = sid \<longrightarrow> fst (hd ps) < tm_due t"
    and "\<forall>e \<in> set tr. tr_time e \<le> T"
  shows "(T < fst (last ps) + 2500 \<longrightarrow>
            wakesOf sid (advance T (run tr st)) = wakesOf sid st
            \<and> (\<exists>tid. timersOf sid (advance T (run tr st)) = [Timer tid (fst (last ps) + 2500) sid]
                 \<and> partialWakeTimers (advance T (run tr st)) sid = Some (tid, snd (last ps))))
       \<and> (fst (last ps) + 2500 \<le> T \<longrightarrow>
            wakesOf sid (advance T (run tr st))
              = wakesOf sid st @ [WakeTrigger (fst (last ps) + 2500) sid (snd (last ps))])"
  using assms
proof (induction tr arbitrary: st ps)
  case Nil
  then show ?case by (simp add: partials_def)
next
  case (Cons e tr)
  from Cons.prems(3) have srt: "sorted (map tr_time tr)"
    and le: "\<forall>e' \<in> set tr. tr_time e \<le> tr_time e'"
    by simp_all
  from Cons.prems(9) have restT: "\<forall>e \<in> set tr. tr_time e \<le> T" by simp
  obtain p ps' where ps: "ps = p # ps'" using Cons.prems(5) by (cases ps) auto
  show ?case
  proof (cases "tr_call e = sid")
    case False
    with Cons.prems(4) have flt: "[e \<leftarrow> tr. tr_call e = sid] = partials sid ps" by simp
    then have "Transcript (fst p) sid (snd p) False \<in> set [e \<leftarrow> tr. tr_call e = sid]"
      by (simp add: ps partials_Cons)
    then have "Transcript (fst p) sid (snd p) False \<in> set tr" by simp
    with le have "tr_time e \<le> fst p" by fastforce
    with Cons.prems(8) have nd: "\<forall>t \<in> set (timers st). tm_call t = sid \<longrightarrow> tr_time e < tm_due t"
      by (fastforce simp: ps)
    note s = step_other [OF Cons.prems(1,2) False nd]
    have l: "lastWakeOr0 (run [e] st) sid = lastWakeOr0 st sid"
      by (simp only: lastWakeOr0_def s(3))
    have nd': "\<forall>t \<in> set (timers (run [e] st)). tm_call t = sid \<longrightarrow> fst (hd ps) < tm_due t"
    proof (intro ballI impI)
      fix t assume "t \<in> set (timers (run [e] st))" "tm_call t = sid"
      then have "t \<in> set (timersOf sid (run [e] st))" by (rule timersOf_mem)
      then have "t \<in> set (timersOf sid st)" by (simp only: s(6))
      then have "t \<in> set (timers st)" "tm_call t = sid"
        by (simp_all add: timersOf_def)
      with Cons.prems(8) show "fst (hd ps) < tm_due t" by blast
    qed
    have "(T < fst (last ps) + 2500 \<longrightarrow>
            wakesOf sid (advance T (run tr (run [e] st))) = wakesOf sid (run [e] st)
            \<and> (\<exists>tid. timersOf sid (advance T (run tr (run [e] st)))
                        = [Timer tid (fst (last ps) + 2500) sid]
                 \<and> partialWakeTimers (advance T (run tr (run [e] st))) sid
                        = Some (tid, snd (last ps))))
       \<and> (fst (last ps) + 2500 \<le> T \<longrightarrow>
            wakesOf sid (advance T (run tr (run [e] st)))
              = wakesOf sid (run [e] st) @ [WakeTrigger (fst (last ps) + 2500) sid (snd (last ps))])"
      by (rule Cons.IH [OF s(1,2) srt flt Cons.prems(5,6) _ nd' restT])
         (simp only: l Cons.prems(7))
    then show ?thesis
      by (simp only: run_Cons [of e tr] s(5))
  next
    case True
    with Cons.prems(4) have e: "e = Transcript (fst p) sid (snd p) False"
      and flt: "[e \<leftarrow> tr. tr_call e = sid] = partials sid ps'"
      by (simp_all add: ps partials_Cons)
    let ?t = "fst p"
    let ?st1 = "handleWake (advance ?t st) ?t sid (snd p) False"
    have r1: "run [e] st = ?st1" by (simp add: e)
    from Cons.prems(7,8) have el: "8000 \<le> ?t - lastWakeOr0 st sid"
      and nd: "\<forall>t \<in> set (timers st). tm_call t = sid \<longrightarrow> ?t < tm_due t"
      by (simp_all add: ps)
    note s = partial_step [OF Cons.prems(1) el nd, of "snd p"]
    from s(4) obtain tid where tm: "timersOf sid ?st1 = [Timer tid (?t + 2500) sid]"
      and pw: "partialWakeTimers ?st1 sid = Some (tid, snd p)" by blast
    have ri: "records_inv ?st1"
      by (intro handleWake_records_inv advance_records_inv Cons.prems(2))
    have l: "lastWakeOr0 ?st1 sid = lastWakeOr0 st sid"
      by (simp only: lastWakeOr0_def s(2))
    show ?thesis
    proof (cases ps')
      case Nil
      then have oth: "\<forall>e \<in> set tr. tr_call e \<noteq> sid"
        using flt by (simp add: partials_Nil filter_empty_conv)
      have el1: "8000 \<le> ?t + 2500 - lastWakeOr0 ?st1 sid"
        using el by (simp add: l)
      from armed_others [OF s(1) ri tm pw el1 oth restT]
      show ?thesis
        by (simp only: run_Cons [of e tr] r1 s(3)) (simp add: ps Nil)
    next
      case (Cons p' ps'')
      from Cons.prems(6) have gap: "?t \<le> fst p'" "fst p' < ?t + 2500"
        and cg: "close_gaps (map fst ps')"
        by (simp_all add: ps Cons)
      have el': "8000 \<le> fst (hd ps') - lastWakeOr0 ?st1 sid"
        using el gap(1) by (simp add: l Cons)
      have nd': "\<forall>t \<in> set (timers ?st1). tm_call t = sid \<longrightarrow> fst (hd ps') < tm_due t"
        using timersOf_notdue [OF tm gap(2)] by (simp add: Cons)
      have ne: "ps' \<noteq> []" by (simp add: Cons)
      have "(T < fst (last ps') + 2500 \<longrightarrow>
            wakesOf sid (advance T (run tr ?st1)) = wakesOf sid ?st1
            \<and> (\<exists>tid. timersOf sid (advance T (run tr ?st1)) = [Timer tid (fst (last ps') + 2500) sid]
                 \<and> partialWakeTimers (advance T (run tr ?st1)) sid = Some (tid, snd (last ps'))))
       \<and> (fst (last ps') + 2500 \<le> T \<longrightarrow>
            wakesOf sid (advance T (run tr ?st1))
              = wakesOf sid ?st1 @ [WakeTrigger (fst (last ps') + 2500) sid (snd (last ps'))])"
        by (rule Cons.IH [OF s(1) ri srt flt ne cg el' nd' restT])
      moreover have "last ps = last ps'" by (simp add: ps Cons)
      ultimately show ?thesis
        by (simp only: run_Cons [of e tr] r1 s(3))
    qed
  qed
qed

section \<open>Wake debouncer: the state in which a burst begins\<close>

lemma advance_idem: "advance t (advance t st) = advance t st"
proof -
  have "[e \<leftarrow> timers (advance t st). tm_due e \<le> t] = []"
    by (simp add: advance_fields filter_empty_conv)
  moreover have "[e \<leftarrow> timers (advance t st). \<not> tm_due e \<le> t] = timers (advance t st)"
    by (simp add: advance_fields)
  ultimately show ?thesis
    by (simp add: advance_def [of t "advance t st"])
qed

lemma advance_none_due:
  "\<forall>e \<in> set (timers (advance t st)). tm_call e = sid \<longrightarrow> t < tm_due e"
  by (simp add: advance_fields)

lemma first_of_call:
  assumes "[e \<leftarrow> tr. tr_call e = sid] = partials sid ps" and "ps \<noteq> []"
  shows "\<exists>rest. tr = before_first sid tr @ Transcript (fst (hd ps)) sid (snd (hd ps)) False # rest
           \<and> [e \<leftarrow> rest. tr_call e = sid] = partials sid (tl ps)"
proof -
  let ?P = "\<lambda>e. tr_call e \<noteq> sid"
  obtain p ps' where ps: "ps = p # ps'" using assms(2) by (cases ps) auto
  have split: "tr = takeWhile ?P tr @ dropWhile ?P tr" by simp
  have none: "[e \<leftarrow> takeWhile ?P tr. tr_call e = sid] = []"
    by (auto simp: filter_empty_conv dest: set_takeWhileD)
  have "[e \<leftarrow> tr. tr_call e = sid] = [e \<leftarrow> dropWhile ?P tr. tr_call e = sid]"
    by (subst split) (simp only: filter_append none append_Nil)
  with assms(1) have flt: "[e \<leftarrow> dropWhile ?P tr. tr_call e = sid] = partials sid (p # ps')"
    by (simp add: ps)
  have "dropWhile ?P tr \<noteq> []"
  proof
    assume "dropWhile ?P tr = []"
    with flt show False by (simp add: partials_Cons)
  qed
  then obtain e rest where d: "dropWhile ?P tr = e # rest" by (cases "dropWhile ?P tr") auto
  have "\<not> ?P (hd (dropWhile ?P tr))"
    by (rule hd_dropWhile) fact
  then have c: "tr_call e = sid" by (simp add: d)
  from flt have "e = Transcript (fst p) sid (snd p) False"
    and "[e \<leftarrow> rest. tr_call e = sid] = partials sid ps'"
    by (simp_all add: d c partials_Cons)
  with split d show ?thesis
    by (auto simp: before_first_def ps)
qed

section \<open>Wake debouncer: the properties\<close>

lemmas wake_eval = wake_init_def advance_def handleWake_def timerCallback_def lastWakeOr0_def
  doWake_def setTimeout_def clearTimeout_def partials_def wakesOf_def timersOf_def

text \<open>
  C1. Throttle. Take any sequence of wake-matching transcripts, of any calls, and the state
  in which a committed transcript arriving at time \<open>now\<close> is handled. If some recorded
  trigger of that call is less than 8000 ms before \<open>now\<close>, handling the transcript changes
  nothing: no trigger is added (and no timer is touched). And in every reachable trigger
  log, two triggers of the same call are at least 8000 ms apart, measured from trigger to
  trigger.
\<close>

theorem throttle_window:
  fixes tr :: "transcript list"
  shows "(\<forall>w \<in> set (wakes (advance now (run tr wake_init))).
            wk_call w = sid \<and> now - wk_time w < 8000 \<longrightarrow>
            run (tr @ [Transcript now sid text True]) wake_init = advance now (run tr wake_init))
       \<and> (\<forall>i j. i < j \<and> j < length (wakes (run tr wake_init))
              \<and> wk_call (wakes (run tr wake_init) ! i) = wk_call (wakes (run tr wake_init) ! j) \<longrightarrow>
            wk_time (wakes (run tr wake_init) ! i) + 8000 \<le> wk_time (wakes (run tr wake_init) ! j))"
proof (intro conjI ballI impI allI)
  let ?st = "advance now (run tr wake_init)"
  fix w
  assume w: "w \<in> set (wakes ?st)" and h: "wk_call w = sid \<and> now - wk_time w < 8000"
  have "throttle_inv ?st"
    by (intro advance_throttle_inv run_throttle_inv throttle_inv_init)
  with w h have "now - lastWakeOr0 ?st sid < 8000"
    by (fastforce simp: throttle_inv_def)
  then show "run (tr @ [Transcript now sid text True]) wake_init = ?st"
    by (simp add: run_append handleWake_throttled)
next
  let ?ws = "wakes (run tr wake_init)"
  fix i j
  assume h: "i < j \<and> j < length ?ws \<and> wk_call (?ws ! i) = wk_call (?ws ! j)"
  have "spaced ?ws"
    using run_throttle_inv [OF throttle_inv_init, of tr] by (simp add: throttle_inv_def)
  with h show "wk_time (?ws ! i) + 8000 \<le> wk_time (?ws ! j)"
    by (simp add: spaced_def sorted_wrt_iff_nth_less)
qed

theorem throttle_window_witness:
  "WakeTrigger 109000 (Some ''CA1'') ''hey assistant three'' \<in>
     set (wakes (advance 112000 (run
       [Transcript 100000 (Some ''CA1'') ''hey assistant one'' True,
        Transcript 104000 (Some ''CA1'') ''hey assistant two'' True,
        Transcript 109000 (Some ''CA1'') ''hey assistant three'' True] wake_init)))
   \<and> run ([Transcript 100000 (Some ''CA1'') ''hey assistant one'' True,
            Transcript 104000 (Some ''CA1'') ''hey assistant two'' True,
            Transcript 109000 (Some ''CA1'') ''hey assistant three'' True]
           @ [Transcript 112000 (Some ''CA1'') ''hey assistant four'' True]) wake_init
       = advance 112000 (run
       [Transcript 100000 (Some ''CA1'') ''hey assistant one'' True,
        Transcript 104000 (Some ''CA1'') ''hey assistant two'' True,
        Transcript 109000 (Some ''CA1'') ''hey assistant three'' True] wake_init)
   \<and> wakes (run
       [Transcript 100000 (Some ''CA1'') ''hey assistant one'' True,
        Transcript 104000 (Some ''CA1'') ''hey assistant two'' True,
        Transcript 109000 (Some ''CA1'') ''hey assistant three'' True] wake_init)
       = [WakeTrigger 100000 (Some ''CA1'') ''hey assistant one'',
          WakeTrigger 109000 (Some ''CA1'') ''hey assistant three'']
   \<and> wk_time (wakes (run
       [Transcript 100000 (Some ''CA1'') ''hey assistant one'' True,
        Transcript 104000 (Some ''CA1'') ''hey assistant two'' True,
        Transcript 109000 (Some ''CA1'') ''hey assistant three'' True] wake_init) ! 0) + 8000
     \<le> wk_time (wakes (run
       [Transcript 100000 (Some ''CA1'') ''hey assistant one'' True,
        Transcript 104000 (Some ''CA1'') ''hey assistant two'' True,
        Transcript 109000 (Some ''CA1'') ''hey assistant three'' True] wake_init) ! 1)"
proof -
  let ?tr = "[Transcript 100000 (Some ''CA1'') ''hey assistant one'' True,
        Transcript 104000 (Some ''CA1'') ''hey assistant two'' True,
        Transcript 109000 (Some ''CA1'') ''hey assistant three'' True]"
  have ws: "wakes (run ?tr wake_init)
       = [WakeTrigger 100000 (Some ''CA1'') ''hey assistant one'',
          WakeTrigger 109000 (Some ''CA1'') ''hey assistant three'']"
    by (simp add: wake_eval)
  have ws': "wakes (advance 112000 (run ?tr wake_init))
       = [WakeTrigger 100000 (Some ''CA1'') ''hey assistant one'',
          WakeTrigger 109000 (Some ''CA1'') ''hey assistant three'']"
    by (simp add: wake_eval)
  note tw = throttle_window [of 112000 ?tr "Some ''CA1''" "''hey assistant four''"]
  from tw have 1: "run (?tr @ [Transcript 112000 (Some ''CA1'') ''hey assistant four'' True]) wake_init
       = advance 112000 (run ?tr wake_init)"
    unfolding ws' by simp
  from tw have 2: "wk_time (wakes (run ?tr wake_init) ! 0) + 8000 \<le> wk_time (wakes (run ?tr wake_init) ! 1)"
    unfolding ws by simp
  show ?thesis
    using 1 2 ws ws' by simp
qed

text \<open>
  C2 (as amended). Take any earlier transcripts, and then any transcripts in order of
  arrival, all of them by time \<open>T\<close>, among which those of one call are a non-empty burst of
  partials, each arriving less than 2500 ms after the one before it; transcripts of other
  calls may come before the burst and in between. Let the throttle window of the call have
  elapsed in the state in which the first partial of the burst is handled, whatever came
  before, a trigger fired by a timer included. Then: while \<open>T\<close> is less than 2500 ms after
  the last partial, the call has no trigger beyond those of that state, and exactly one
  timer of it is scheduled, due 2500 ms after the last partial, with the last partial's text
  recorded; and once \<open>T\<close> is 2500 ms after the last partial or later, the call has exactly
  one more trigger, fired 2500 ms after the last partial with the last partial's text.
\<close>

theorem partial_burst_fires_once:
  fixes pre tr :: "transcript list" and ps :: "(millis \<times> string) list"
  assumes "ps \<noteq> []"
    and "close_gaps (map fst ps)"
    and "sorted (map tr_time tr)"
    and "[e \<leftarrow> tr. tr_call e = sid] = partials sid ps"
    and "\<forall>e \<in> set tr. tr_time e \<le> T"
    and "8000 \<le> fst (hd ps)
            - lastWakeOr0 (advance (fst (hd ps)) (run (pre @ before_first sid tr) wake_init)) sid"
  shows "(T < fst (last ps) + 2500 \<longrightarrow>
            wakesOf sid (advance T (run (pre @ tr) wake_init))
              = wakesOf sid (advance (fst (hd ps)) (run (pre @ before_first sid tr) wake_init))
            \<and> (\<exists>tid. timersOf sid (advance T (run (pre @ tr) wake_init))
                        = [Timer tid (fst (last ps) + 2500) sid]
                 \<and> partialWakeTimers (advance T (run (pre @ tr) wake_init)) sid
                        = Some (tid, snd (last ps))))
       \<and> (fst (last ps) + 2500 \<le> T \<longrightarrow>
            wakesOf sid (advance T (run (pre @ tr) wake_init))
              = wakesOf sid (advance (fst (hd ps)) (run (pre @ before_first sid tr) wake_init))
                @ [WakeTrigger (fst (last ps) + 2500) sid (snd (last ps))])"
proof -
  let ?t0 = "fst (hd ps)"
  let ?e0 = "Transcript ?t0 sid (snd (hd ps)) False"
  let ?s = "run (pre @ before_first sid tr) wake_init"
  let ?st = "advance ?t0 ?s"
  from first_of_call [OF assms(4,1)] obtain rest
    where tr: "tr = before_first sid tr @ ?e0 # rest" by blast
  have none: "[e \<leftarrow> before_first sid tr. tr_call e = sid] = []"
    by (auto simp: before_first_def filter_empty_conv dest: set_takeWhileD)
  have "run (pre @ tr) wake_init = run (pre @ before_first sid tr @ ?e0 # rest) wake_init"
    using tr by simp
  also have "\<dots> = run (?e0 # rest) ?s"
    by (simp only: run_append append_assoc [symmetric])
  also have "\<dots> = run (?e0 # rest) ?st"
    by (simp add: advance_idem)
  finally have r: "run (pre @ tr) wake_init = run (?e0 # rest) ?st" .
  have ti: "timers_inv ?st"
    by (intro advance_timers_inv run_timers_inv timers_inv_init)
  have ri: "records_inv ?st"
    by (intro advance_records_inv run_records_inv records_inv_init)
  have "sorted (map tr_time (before_first sid tr @ ?e0 # rest))"
    using assms(3) tr by simp
  then have srt: "sorted (map tr_time (?e0 # rest))"
    by (simp only: map_append sorted_append)
  have "[e \<leftarrow> before_first sid tr @ ?e0 # rest. tr_call e = sid] = partials sid ps"
    using assms(4) tr by simp
  then have flt: "[e \<leftarrow> ?e0 # rest. tr_call e = sid] = partials sid ps"
    by (simp only: filter_append none append_Nil)
  have "\<forall>e \<in> set (before_first sid tr @ ?e0 # rest). tr_time e \<le> T"
    using assms(5) tr by simp
  then have le: "\<forall>e \<in> set (?e0 # rest). tr_time e \<le> T"
    by simp
  from mixed_burst [OF ti ri srt flt assms(1,2,6) advance_none_due le] show ?thesis
    by (simp only: r)
qed

theorem partial_burst_fires_once_witness:
  "wakesOf (Some ''CA1'') (advance 103499 (run
       ([Transcript 80000 (Some ''CA1'') ''hey assistant'' False]
         @ [Transcript 99000 (Some ''CA2'') ''hey assistant'' True,
            Transcript 100000 (Some ''CA1'') ''hey assist'' False,
            Transcript 100500 (Some ''CA2'') ''hey assistant'' False,
            Transcript 101000 (Some ''CA1'') ''hey assistant please'' False,
            Transcript 102000 (Some ''CA2'') ''hey assistant again'' False])
       wake_init)) = [WakeTrigger 82500 (Some ''CA1'') ''hey assistant'']
   \<and> wakesOf (Some ''CA1'') (advance 103500 (run
       ([Transcript 80000 (Some ''CA1'') ''hey assistant'' False]
         @ [Transcript 99000 (Some ''CA2'') ''hey assistant'' True,
            Transcript 100000 (Some ''CA1'') ''hey assist'' False,
            Transcript 100500 (Some ''CA2'') ''hey assistant'' False,
            Transcript 101000 (Some ''CA1'') ''hey assistant please'' False,
            Transcript 102000 (Some ''CA2'') ''hey assistant again'' False])
       wake_init))
     = [WakeTrigger 82500 (Some ''CA1'') ''hey assistant'',
        WakeTrigger 103500 (Some ''CA1'') ''hey assistant please'']"
proof -
  let ?pre = "[Transcript 80000 (Some ''CA1'') ''hey assistant'' False]"
  let ?tr = "[Transcript 99000 (Some ''CA2'') ''hey assistant'' True,
            Transcript 100000 (Some ''CA1'') ''hey assist'' False,
            Transcript 100500 (Some ''CA2'') ''hey assistant'' False,
            Transcript 101000 (Some ''CA1'') ''hey assistant please'' False,
            Transcript 102000 (Some ''CA2'') ''hey assistant again'' False]"
  let ?ps = "[(100000 :: millis, ''hey assist''), (101000, ''hey assistant please'')]"
  have bf: "before_first (Some ''CA1'') ?tr = [Transcript 99000 (Some ''CA2'') ''hey assistant'' True]"
    by (simp add: before_first_def)
  have arr: "wakesOf (Some ''CA1'') (advance (fst (hd ?ps))
        (run (?pre @ before_first (Some ''CA1'') ?tr) wake_init))
      = [WakeTrigger 82500 (Some ''CA1'') ''hey assistant'']"
    unfolding bf by (simp add: wake_eval)
  have h1: "?ps \<noteq> []" by simp
  have h2: "close_gaps (map fst ?ps)" by simp
  have h3: "sorted (map tr_time ?tr)" by simp
  have h4: "[e \<leftarrow> ?tr. tr_call e = Some ''CA1''] = partials (Some ''CA1'') ?ps"
    by (simp add: partials_def)
  have h5: "\<forall>e \<in> set ?tr. tr_time e \<le> 103499" "\<forall>e \<in> set ?tr. tr_time e \<le> 103500"
    by simp_all
  have h6: "8000 \<le> fst (hd ?ps) - lastWakeOr0 (advance (fst (hd ?ps))
        (run (?pre @ before_first (Some ''CA1'') ?tr) wake_init)) (Some ''CA1'')"
    unfolding bf by (simp add: wake_eval)
  have l: "fst (last ?ps) + 2500 = 103500" "snd (last ?ps) = ''hey assistant please''"
    by simp_all
  have a: "wakesOf (Some ''CA1'') (advance 103499 (run (?pre @ ?tr) wake_init))
      = wakesOf (Some ''CA1'') (advance (fst (hd ?ps))
          (run (?pre @ before_first (Some ''CA1'') ?tr) wake_init))"
    by (rule partial_burst_fires_once [OF h1 h2 h3 h4 h5(1) h6,
          THEN conjunct1, rule_format, THEN conjunct1]) simp
  have b: "wakesOf (Some ''CA1'') (advance 103500 (run (?pre @ ?tr) wake_init))
      = wakesOf (Some ''CA1'') (advance (fst (hd ?ps))
          (run (?pre @ before_first (Some ''CA1'') ?tr) wake_init))
        @ [WakeTrigger (fst (last ?ps) + 2500) (Some ''CA1'') (snd (last ?ps))]"
    by (rule partial_burst_fires_once [OF h1 h2 h3 h4 h5(2) h6,
          THEN conjunct2, rule_format]) simp
  show ?thesis
    unfolding a b arr l by simp
qed

theorem partial_sequence_counterexample:
  "wakes (advance 200000 (run
      (partials (Some ''CA1'') [(100000, ''hey assist''), (103000, ''hey assistant please'')])
      wake_init))
     = [WakeTrigger 102500 (Some ''CA1'') ''hey assist'']
   \<and> wakes (advance 200000 (run
      (partials (Some ''CA1'') [(100000, ''hey assist''), (111000, ''hey assistant please'')])
      wake_init))
     = [WakeTrigger 102500 (Some ''CA1'') ''hey assist'',
        WakeTrigger 113500 (Some ''CA1'') ''hey assistant please'']
   \<and> wakes (advance 200000 (run
      ([Transcript 100000 (Some ''CA1'') ''hey assistant'' True]
        @ partials (Some ''CA1'') [(101000, ''hey assist''), (102000, ''hey assistant please'')])
      wake_init))
     = [WakeTrigger 100000 (Some ''CA1'') ''hey assistant'']"
  by (simp add: wake_eval)

text \<open>
  C3. In the state in which a committed transcript arriving at time \<open>now\<close> is handled, let
  a partial be pending for the call (a timer and its text are recorded) and let the throttle
  window have elapsed. Then handling the committed transcript adds one trigger, carrying the
  committed text; it removes the recorded timer and the record, so that no timer of the call
  is left; and however much time passes afterwards, timers add no trigger for the call: the
  recorded partial text is never used.
\<close>

theorem committed_cancels_pending_partial:
  fixes tr :: "transcript list" and ctext :: string
  assumes "partialWakeTimers (advance now (run tr wake_init)) sid = Some (tid, ptext)"
    and "8000 \<le> now - lastWakeOr0 (advance now (run tr wake_init)) sid"
  shows "wakes (handleWake (advance now (run tr wake_init)) now sid ctext True)
           = wakes (advance now (run tr wake_init)) @ [WakeTrigger now sid ctext]
       \<and> partialWakeTimers (handleWake (advance now (run tr wake_init)) now sid ctext True) sid = None
       \<and> timers (handleWake (advance now (run tr wake_init)) now sid ctext True)
           = [e \<leftarrow> timers (advance now (run tr wake_init)). tm_id e \<noteq> tid]
       \<and> timersOf sid (handleWake (advance now (run tr wake_init)) now sid ctext True) = []
       \<and> (\<forall>T. wakesOf sid (advance T (handleWake (advance now (run tr wake_init)) now sid ctext True))
                = wakesOf sid (advance now (run tr wake_init)) @ [WakeTrigger now sid ctext])"
proof -
  let ?st = "advance now (run tr wake_init)"
  let ?st' = "handleWake ?st now sid ctext True"
  have inv: "timers_inv ?st"
    by (intro advance_timers_inv run_timers_inv timers_inv_init)
  have el: "\<not> now - lastWakeOr0 ?st sid < 8000"
    using assms(2) by simp
  note f = handleWake_committed_fields [OF el, of ctext]
  note g = handleWake_committed_timers [OF el, of ctext]
  have 1: "wakes ?st' = wakes ?st @ [WakeTrigger now sid ctext]" by (rule f(1))
  have 2: "partialWakeTimers ?st' sid = None" by (simp add: g(2))
  have 3: "timers ?st' = [e \<leftarrow> timers ?st. tm_id e \<noteq> tid]"
    by (simp add: g(1) cleared_def assms(1))
  have "[e \<leftarrow> cleared sid ?st. tm_call e = sid] = []"
    using cleared_other [OF inv] by (auto simp: filter_empty_conv)
  then have 4: "timersOf sid ?st' = []"
    by (simp add: timersOf_def g(1))
  have 5: "wakesOf sid (advance T ?st') = wakesOf sid ?st @ [WakeTrigger now sid ctext]" for T
    using advance_not_due(3) [OF timersOf_empty_notdue [OF 4], of T]
    by (simp add: wakesOf_def 1)
  from 1 2 3 4 5 show ?thesis by blast
qed

theorem committed_cancels_pending_partial_witness:
  "partialWakeTimers (advance 101000 (run [Transcript 100000 (Some ''CA1'') ''hey assist'' False] wake_init))
      (Some ''CA1'') = Some (0, ''hey assist'')
   \<and> timers (advance 101000 (run [Transcript 100000 (Some ''CA1'') ''hey assist'' False] wake_init))
      = [Timer 0 102500 (Some ''CA1'')]
   \<and> timers (handleWake
         (advance 101000 (run [Transcript 100000 (Some ''CA1'') ''hey assist'' False] wake_init))
         101000 (Some ''CA1'') ''hey assistant what time is it'' True) = []
   \<and> wakesOf (Some ''CA1'') (advance 200000 (handleWake
         (advance 101000 (run [Transcript 100000 (Some ''CA1'') ''hey assist'' False] wake_init))
         101000 (Some ''CA1'') ''hey assistant what time is it'' True))
      = [WakeTrigger 101000 (Some ''CA1'') ''hey assistant what time is it'']"
proof -
  let ?st = "advance 101000 (run [Transcript 100000 (Some ''CA1'') ''hey assist'' False] wake_init)"
  have h1: "partialWakeTimers ?st (Some ''CA1'') = Some (0, ''hey assist'')"
    by (simp add: wake_eval)
  have h2: "8000 \<le> 101000 - lastWakeOr0 ?st (Some ''CA1'')"
    by (simp add: wake_eval)
  have t: "timers ?st = [Timer 0 102500 (Some ''CA1'')]"
    by (simp add: wake_eval)
  have w: "wakesOf (Some ''CA1'') ?st = []"
    by (simp add: wake_eval)
  note th = committed_cancels_pending_partial [OF h1 h2, of "''hey assistant what time is it''"]
  have c: "timers (handleWake ?st 101000 (Some ''CA1'') ''hey assistant what time is it'' True)
      = [e \<leftarrow> timers ?st. tm_id e \<noteq> 0]"
    by (rule th [THEN conjunct2, THEN conjunct2, THEN conjunct1])
  have d: "wakesOf (Some ''CA1'') (advance 200000
        (handleWake ?st 101000 (Some ''CA1'') ''hey assistant what time is it'' True))
      = wakesOf (Some ''CA1'') ?st
        @ [WakeTrigger 101000 (Some ''CA1'') ''hey assistant what time is it'']"
    by (rule th [THEN conjunct2, THEN conjunct2, THEN conjunct2, THEN conjunct2, rule_format])
  show ?thesis
    unfolding c d h1 t w by simp
qed

section \<open>Agent turn coordinator: what each step leaves unchanged\<close>

lemma deliver_frame:
  "ag_timeouts (deliver c r) = ag_timeouts c"
  "nextPromise (deliver c r) = nextPromise c"
  "ag_ready (deliver c r) = ag_ready c"
  "ag_wsOpen (deliver c r) = ag_wsOpen c"
  by (simp_all add: deliver_def split: option.splits)

lemma handleMessage_frame:
  "ag_timeouts (handleMessage c m) = ag_timeouts c"
  "nextPromise (handleMessage c m) = nextPromise c"
  "ag_ready (handleMessage c m) = ag_ready c"
  "ag_wsOpen (handleMessage c m) = ag_wsOpen c"
  by (induction c m rule: handleMessage.induct) (simp_all add: deliver_frame Let_def)

lemma timeoutCallback_frame:
  "ag_timeouts (timeoutCallback c) = ag_timeouts c"
  "nextPromise (timeoutCallback c) = nextPromise c"
  "ag_ready (timeoutCallback c) = ag_ready c"
  "ag_wsOpen (timeoutCallback c) = ag_wsOpen c"
  "ag_wsSent (timeoutCallback c) = ag_wsSent c"
  by (simp_all add: timeoutCallback_def split: option.splits)

lemma fireTimeouts_frame:
  "ag_timeouts (fireTimeouts ds c) = ag_timeouts c"
  "nextPromise (fireTimeouts ds c) = nextPromise c"
  "ag_ready (fireTimeouts ds c) = ag_ready c"
  "ag_wsOpen (fireTimeouts ds c) = ag_wsOpen c"
  "ag_wsSent (fireTimeouts ds c) = ag_wsSent c"
  by (induction ds arbitrary: c) (simp_all add: timeoutCallback_frame)

lemma agent_advance_frame:
  "ag_timeouts (agent_advance t c) = [d \<leftarrow> ag_timeouts c. \<not> d \<le> t]"
  "nextPromise (agent_advance t c) = nextPromise c"
  "ag_ready (agent_advance t c) = ag_ready c"
  "ag_wsOpen (agent_advance t c) = ag_wsOpen c"
  "ag_wsSent (agent_advance t c) = ag_wsSent c"
  by (simp_all add: agent_advance_def fireTimeouts_frame)

lemma agent_advance_not_due:
  assumes "\<forall>d \<in> set (ag_timeouts c). t < d"
  shows "agent_advance t c = c"
proof -
  have "[d \<leftarrow> ag_timeouts c. d \<le> t] = []"
    using assms by (auto simp: filter_empty_conv)
  moreover have "[d \<leftarrow> ag_timeouts c. \<not> d \<le> t] = ag_timeouts c"
    using assms by (auto simp: filter_id_conv)
  ultimately show ?thesis by (simp add: agent_advance_def)
qed

lemma timeoutCallback_idle:
  "pendingResolve c = None \<Longrightarrow> timeoutCallback c = c"
  by (simp add: timeoutCallback_def)

lemma fireTimeouts_idle:
  "pendingResolve c = None \<Longrightarrow> fireTimeouts ds c = c"
  by (induction ds) (simp_all add: timeoutCallback_idle)

lemma fireTimeouts_pending:
  assumes "pendingResolve c = Some p" and "ds \<noteq> []"
  shows "fireTimeouts ds c =
           c\<lparr>resolved := resolved c @ [(p, bufferOrNull (responseBuffer c))],
             pendingResolve := None, firstResolved := True\<rparr>"
proof -
  obtain d ds' where ds: "ds = d # ds'" using assms(2) by (cases ds) auto
  show ?thesis
    using assms(1) by (simp add: ds timeoutCallback_def fireTimeouts_idle)
qed

lemma agent_advance_idle:
  "pendingResolve c = None \<Longrightarrow> resolved (agent_advance t c) = resolved c"
  by (simp add: agent_advance_def fireTimeouts_idle)

section \<open>Agent turn coordinator: a reply streamed in fragments\<close>

lemma agent_run_messages_before:
  assumes "\<forall>e \<in> set tr. \<forall>d \<in> set (ag_timeouts c). fst e < d"
    and "map snd tr = map Message ms"
  shows "agent_run tr c = foldl handleMessage c ms"
  using assms
proof (induction tr arbitrary: c ms)
  case Nil
  then show ?case by simp
next
  case (Cons e tr)
  from Cons.prems(2) obtain m ms' where ms: "ms = m # ms'" and e: "snd e = Message m"
    and rest: "map snd tr = map Message ms'"
    by (cases ms) auto
  have "\<forall>d \<in> set (ag_timeouts c). fst e < d"
    using Cons.prems(1) by simp
  then have adv: "agent_advance (fst e) c = c"
    by (rule agent_advance_not_due)
  have "agent_run tr (handleMessage c m) = foldl handleMessage (handleMessage c m) ms'"
    using Cons.prems(1) rest by (intro Cons.IH) (simp_all add: handleMessage_frame)
  then show ?case
    by (simp add: adv e ms)
qed

lemma handleMessage_delta:
  "handleMessage c (deltaPart d) = c\<lparr>responseBuffer := responseBuffer c @ d\<rparr>"
  by (simp add: deltaPart_def)

lemma foldl_delta:
  "foldl handleMessage c (map deltaPart ds) = c\<lparr>responseBuffer := responseBuffer c @ concat ds\<rparr>"
  by (induction ds arbitrary: c) (simp_all add: handleMessage_delta)

lemma sendText_ok:
  assumes "sendText c now q connects = (c1, Inr p)"
  shows "pendingResolve c1 = Some p" and "responseBuffer c1 = []"
    and "resolved c1 = resolved c" and "ag_timeouts c1 = ag_timeouts c @ [now + 15000]"
    and "ag_ready c1" and "ag_wsOpen c1" and "p = nextPromise c" and "nextPromise c1 = Suc p"
    and "subsequent c1 = subsequent c"
  using assms
  by (auto simp: sendText_def agent_onOpen_def sendInitData_def Let_def split: if_splits)

lemma handleMessage_start:
  "handleMessage c startPart = c\<lparr>responseBuffer := []\<rparr>"
  by (simp add: startPart_def)

lemma handleMessage_stop:
  "handleMessage c stopPart =
     (if responseBuffer c \<noteq> [] then (deliver c (responseBuffer c))\<lparr>responseBuffer := []\<rparr> else c)"
  by (simp add: stopPart_def)

lemma fragments_state:
  "foldl handleMessage c (startPart # map deltaPart ds) = c\<lparr>responseBuffer := concat ds\<rparr>"
  by (simp add: handleMessage_start foldl_delta)

lemma same_reply_refl: "same_reply c c"
  by (simp add: same_reply_def)

lemma deliver_same_reply:
  "same_reply c c' \<Longrightarrow> same_reply (deliver c r) (deliver c' r)"
  by (auto simp: same_reply_def deliver_def split: option.splits)

lemma handleMessage_same_reply:
  assumes "same_reply c c'"
  shows "same_reply (handleMessage c m) (handleMessage c' m)"
proof (cases m)
  case (AgentChatResponsePart part)
  show ?thesis
  proof (cases part)
    case None
    with AgentChatResponsePart assms show ?thesis by simp
  next
    case (Some pt)
    have b: "responseBuffer c = responseBuffer c'" using assms by (simp add: same_reply_def)
    have "same_reply ((deliver c (responseBuffer c))\<lparr>responseBuffer := []\<rparr>)
            ((deliver c' (responseBuffer c'))\<lparr>responseBuffer := []\<rparr>)"
      using deliver_same_reply [OF assms, of "responseBuffer c"] b
      by (simp add: same_reply_def)
    moreover have "same_reply (c\<lparr>responseBuffer := x\<rparr>) (c'\<lparr>responseBuffer := x\<rparr>)" for x
      using assms by (simp add: same_reply_def)
    ultimately show ?thesis
      using assms by (simp add: AgentChatResponsePart Some b)
  qed
next
  case (AgentResponse tx)
  let ?c1 = "if responseHandler c then c\<lparr>responses := responses c @ [tx]\<rparr> else c"
  let ?c1' = "if responseHandler c' then c'\<lparr>responses := responses c' @ [tx]\<rparr> else c'"
  have "same_reply ?c1 ?c1'" using assms by (simp add: same_reply_def)
  from this deliver_same_reply [OF this, of tx] show ?thesis
    by (simp add: AgentResponse Let_def)
qed (use assms in \<open>simp_all add: same_reply_def\<close>)

lemma handleMessage_neutral:
  "neutral m \<Longrightarrow> same_reply (handleMessage c m) c"
  by (cases m rule: neutral.cases) (simp_all add: same_reply_def)

lemma same_reply_trans: "same_reply a b \<Longrightarrow> same_reply b c \<Longrightarrow> same_reply a c"
  by (simp add: same_reply_def)

lemma foldl_same_reply:
  "same_reply c c' \<Longrightarrow>
   same_reply (foldl handleMessage c ms) (foldl handleMessage c' [m \<leftarrow> ms. \<not> neutral m])"
proof (induction ms arbitrary: c c')
  case Nil
  then show ?case by simp
next
  case (Cons m ms)
  show ?case
  proof (cases "neutral m")
    case True
    have "same_reply (handleMessage c m) c'"
      by (rule same_reply_trans [OF handleMessage_neutral [OF True] Cons.prems])
    from Cons.IH [OF this] True show ?thesis by simp
  next
    case False
    have "same_reply (handleMessage c m) (handleMessage c' m)"
      by (rule handleMessage_same_reply [OF Cons.prems])
    from Cons.IH [OF this] False show ?thesis by simp
  qed
qed

lemma foldl_handleMessage_frame:
  "ag_timeouts (foldl handleMessage c ms) = ag_timeouts c"
  "ag_ready (foldl handleMessage c ms) = ag_ready c"
  "ag_wsOpen (foldl handleMessage c ms) = ag_wsOpen c"
  by (induction ms arbitrary: c) (simp_all add: handleMessage_frame)

lemma agent_advance_resolves:
  assumes "d \<in> set (ag_timeouts c)" and "d \<le> t" and "pendingResolve c = Some p"
  shows "resolved (agent_advance t c) = resolved c @ [(p, bufferOrNull (responseBuffer c))]"
proof -
  have ne: "[d \<leftarrow> ag_timeouts c. d \<le> t] \<noteq> []"
    using assms(1,2) by (auto simp: filter_empty_conv)
  have "pendingResolve (c\<lparr>ag_timeouts := [d \<leftarrow> ag_timeouts c. \<not> d \<le> t]\<rparr>) = Some p"
    using assms(3) by simp
  from fireTimeouts_pending [OF this ne] show ?thesis
    by (simp add: agent_advance_def)
qed

section \<open>Agent turn coordinator: invariants of the reachable states\<close>

lemma run_induct_rule:
  assumes init: "P c"
    and st: "\<And>t e c. P c \<Longrightarrow> P (agent_handle t e c)"
    and tc: "\<And>c. P c \<Longrightarrow> P (timeoutCallback c)"
    and fr: "\<And>c ds. P c \<Longrightarrow> P (c\<lparr>ag_timeouts := ds\<rparr>)"
  shows "P (agent_advance T (agent_run tr c))"
proof -
  have ft: "P (fireTimeouts ds c)" if "P c" for ds c
    using that by (induction ds arbitrary: c) (simp_all add: tc)
  have adv: "P (agent_advance t c)" if "P c" for t c
    unfolding agent_advance_def by (intro ft fr that)
  have "P (agent_run tr c)" if "P c" for c
    using that by (induction tr arbitrary: c) (simp_all add: adv st)
  then show ?thesis using init by (intro adv)
qed

lemma deliver_abandoned: "abandoned p c \<Longrightarrow> abandoned p (deliver c r)"
  by (auto simp: abandoned_def deliver_def split: option.splits)

lemma handleMessage_abandoned: "abandoned p c \<Longrightarrow> abandoned p (handleMessage c m)"
proof (induction c m rule: handleMessage.induct)
  case (4 c part)
  from deliver_abandoned [OF 4, of "responseBuffer c"]
  have "abandoned p ((deliver c (responseBuffer c))\<lparr>responseBuffer := []\<rparr>)"
    by (simp add: abandoned_def)
  with 4 show ?case by (simp add: abandoned_def)
next
  case (5 c tx)
  let ?c1 = "if responseHandler c then c\<lparr>responses := responses c @ [tx]\<rparr> else c"
  have "abandoned p ?c1" using 5 by (simp add: abandoned_def)
  from this deliver_abandoned [OF this, of tx] show ?case by (simp add: Let_def)
qed (simp_all add: abandoned_def)

lemma sendText_abandoned: "abandoned p c \<Longrightarrow> abandoned p (fst (sendText c t q k))"
  by (auto simp: abandoned_def sendText_def agent_onOpen_def sendInitData_def Let_def)

lemma agent_handle_abandoned: "abandoned p c \<Longrightarrow> abandoned p (agent_handle t e c)"
  by (cases e) (simp_all add: sendText_abandoned handleMessage_abandoned, simp_all add: abandoned_def)

lemma timeoutCallback_abandoned: "abandoned p c \<Longrightarrow> abandoned p (timeoutCallback c)"
  by (auto simp: abandoned_def timeoutCallback_def split: option.splits)

lemma abandoned_forever:
  assumes "abandoned p c"
  shows "abandoned p (agent_advance T (agent_run tr c))"
  using assms
proof (rule run_induct_rule)
  show "abandoned p (c\<lparr>ag_timeouts := ds\<rparr>)" if "abandoned p c" for c ds
    using that by (simp add: abandoned_def)
qed (simp_all add: agent_handle_abandoned timeoutCallback_abandoned)

lemma deliver_ag_inv: "ag_inv c \<Longrightarrow> ag_inv (deliver c r)"
  by (auto simp: ag_inv_def deliver_def split: option.splits)

lemma handleMessage_ag_inv: "ag_inv c \<Longrightarrow> ag_inv (handleMessage c m)"
proof (induction c m rule: handleMessage.induct)
  case (4 c part)
  from deliver_ag_inv [OF 4, of "responseBuffer c"]
  have "ag_inv ((deliver c (responseBuffer c))\<lparr>responseBuffer := []\<rparr>)"
    by (simp add: ag_inv_def)
  with 4 show ?case by (simp add: ag_inv_def)
next
  case (5 c tx)
  let ?c1 = "if responseHandler c then c\<lparr>responses := responses c @ [tx]\<rparr> else c"
  have "ag_inv ?c1" using 5 by (simp add: ag_inv_def)
  from this deliver_ag_inv [OF this, of tx] show ?case by (simp add: Let_def)
qed (simp_all add: ag_inv_def)

lemma sendText_ag_inv: "ag_inv c \<Longrightarrow> ag_inv (fst (sendText c t q k))"
  by (auto simp: ag_inv_def sendText_def agent_onOpen_def sendInitData_def Let_def less_Suc_eq)

lemma agent_handle_ag_inv: "ag_inv c \<Longrightarrow> ag_inv (agent_handle t e c)"
  by (cases e) (simp_all add: sendText_ag_inv handleMessage_ag_inv, simp_all add: ag_inv_def)

lemma timeoutCallback_ag_inv: "ag_inv c \<Longrightarrow> ag_inv (timeoutCallback c)"
  by (auto simp: ag_inv_def timeoutCallback_def split: option.splits)

lemma ag_inv_new: "ag_inv (agent_new v)"
  by (simp add: ag_inv_def agent_new_def)

lemma ag_inv_reachable: "ag_inv (agent_advance T (agent_run tr (agent_new v)))"
  using ag_inv_new
proof (rule run_induct_rule)
  show "ag_inv (c\<lparr>ag_timeouts := ds\<rparr>)" if "ag_inv c" for c ds
    using that by (simp add: ag_inv_def)
qed (simp_all add: agent_handle_ag_inv timeoutCallback_ag_inv)

lemma deliver_nonempty: "nonempty_inv c \<Longrightarrow> r \<noteq> [] \<Longrightarrow> nonempty_inv (deliver c r)"
  by (auto simp: nonempty_inv_def deliver_def split: option.splits)

lemma handleMessage_nonempty: "nonempty_inv c \<Longrightarrow> nonempty_inv (handleMessage c m)"
proof (induction c m rule: handleMessage.induct)
  case (4 c part)
  have "nonempty_inv ((deliver c (responseBuffer c))\<lparr>responseBuffer := []\<rparr>)"
    if "responseBuffer c \<noteq> []"
    using deliver_nonempty [OF 4 that] by (simp add: nonempty_inv_def)
  with 4 show ?case by (simp add: nonempty_inv_def)
next
  case (5 c tx)
  let ?c1 = "if responseHandler c then c\<lparr>responses := responses c @ [tx]\<rparr> else c"
  have "nonempty_inv ?c1" using 5 by (simp add: nonempty_inv_def)
  from this deliver_nonempty [OF this, of tx] show ?case by (simp add: Let_def)
qed (simp_all add: nonempty_inv_def)

lemma sendText_nonempty: "nonempty_inv c \<Longrightarrow> nonempty_inv (fst (sendText c t q k))"
  by (auto simp: nonempty_inv_def sendText_def agent_onOpen_def sendInitData_def Let_def)

lemma agent_handle_nonempty: "nonempty_inv c \<Longrightarrow> nonempty_inv (agent_handle t e c)"
  by (cases e) (simp_all add: sendText_nonempty handleMessage_nonempty, simp_all add: nonempty_inv_def)

lemma timeoutCallback_nonempty: "nonempty_inv c \<Longrightarrow> nonempty_inv (timeoutCallback c)"
  by (auto simp: nonempty_inv_def timeoutCallback_def bufferOrNull_def split: option.splits)

lemma nonempty_reachable: "nonempty_inv (agent_advance T (agent_run tr (agent_new v)))"
proof (rule run_induct_rule)
  show "nonempty_inv (agent_new v)" by (simp add: nonempty_inv_def agent_new_def)
  show "nonempty_inv (c\<lparr>ag_timeouts := ds\<rparr>)" if "nonempty_inv c" for c ds
    using that by (simp add: nonempty_inv_def)
qed (simp_all add: agent_handle_nonempty timeoutCallback_nonempty)

section \<open>Agent turn coordinator: the properties\<close>

lemmas agent_eval = agent_new_def sendText_def agent_onOpen_def sendInitData_def
  agent_advance_def timeoutCallback_def deliver_def bufferOrNull_def
  startPart_def stopPart_def deltaPart_def Let_def

text \<open>
  C5 (as amended). Let \<^verbatim>\<open>sendText\<close> be called at time \<open>t0\<close> and return a promise, and let
  only messages arrive afterwards, all of them before \<open>t0 + 15000\<close> and each of them before
  any timeout left scheduled by an earlier call falls due. Leave aside the neutral ones
  (audio, pings and the like). If the others are a start marker, delta fragments and a stop
  marker, and the fragments concatenate to a non-empty string, the promise resolves to that
  concatenation, and no timeout changes anything afterwards. If the others are delta
  fragments, with or without a start marker before them, the promise is unresolved at every
  time before \<open>t0 + 15000\<close> at which no earlier timeout is due, and from \<open>t0 + 15000\<close> on
  it is resolved to the text accumulated so far, or to null when nothing has accumulated
  (as when no message arrives at all); the timeout leaves the client ready and the socket
  open, and writes nothing to it.
\<close>

theorem sendText_wait:
  fixes tr :: "(millis \<times> agent_event) list"
  assumes "sendText c t0 q connects = (c1, Inr p)"
    and "map snd tr = map Message ms"
    and "\<forall>e \<in> set tr. fst e < t0 + 15000"
    and "\<forall>e \<in> set tr. \<forall>d \<in> set (ag_timeouts c). fst e < d"
  shows "([m \<leftarrow> ms. \<not> neutral m] = startPart # map deltaPart ds @ [stopPart] \<and> concat ds \<noteq> [] \<longrightarrow>
            (\<forall>T. resolved (agent_advance T (agent_run tr c1)) = resolved c @ [(p, Some (concat ds))]))
       \<and> (([m \<leftarrow> ms. \<not> neutral m] = startPart # map deltaPart ds
            \<or> [m \<leftarrow> ms. \<not> neutral m] = map deltaPart ds)
           \<and> T < t0 + 15000 \<and> (\<forall>d \<in> set (ag_timeouts c). T < d) \<longrightarrow>
            resolved (agent_advance T (agent_run tr c1)) = resolved c)
       \<and> (([m \<leftarrow> ms. \<not> neutral m] = startPart # map deltaPart ds
            \<or> [m \<leftarrow> ms. \<not> neutral m] = map deltaPart ds) \<and> t0 + 15000 \<le> T \<longrightarrow>
            resolved (agent_advance T (agent_run tr c1))
              = resolved c @ [(p, if concat ds = [] then None else Some (concat ds))]
            \<and> ag_ready (agent_advance T (agent_run tr c1))
            \<and> ag_wsOpen (agent_advance T (agent_run tr c1))
            \<and> ag_wsSent (agent_advance T (agent_run tr c1)) = ag_wsSent (agent_run tr c1))"
proof -
  note s = sendText_ok [OF assms(1)]
  have tm: "ag_timeouts c1 = ag_timeouts c @ [t0 + 15000]"
    by (rule s(4))
  have due: "\<forall>e \<in> set tr. \<forall>d \<in> set (ag_timeouts c1). fst e < d"
    using assms(3,4) by (simp add: tm)
  have run: "agent_run tr c1 = foldl handleMessage c1 ms"
    using due assms(2) by (rule agent_run_messages_before)
  define X where "X = agent_run tr c1"
  have Xt: "ag_timeouts X = ag_timeouts c @ [t0 + 15000]" and Xr: "ag_ready X" and Xo: "ag_wsOpen X"
    by (simp_all add: X_def run foldl_handleMessage_frame tm s)
  have sr: "same_reply X (foldl handleMessage c1 [m \<leftarrow> ms. \<not> neutral m])"
    unfolding X_def run by (rule foldl_same_reply [OF same_reply_refl])
  have 1: "resolved (agent_advance T X) = resolved c @ [(p, Some (concat ds))]"
    if f: "[m \<leftarrow> ms. \<not> neutral m] = startPart # map deltaPart ds @ [stopPart]"
      and ne: "concat ds \<noteq> []" for T
  proof -
    define c2 where "c2 = foldl handleMessage c1 (startPart # map deltaPart ds)"
    have c2: "c2 = c1\<lparr>responseBuffer := concat ds\<rparr>"
      unfolding c2_def by (rule fragments_state)
    have "foldl handleMessage c1 [m \<leftarrow> ms. \<not> neutral m]
        = foldl handleMessage c1 ((startPart # map deltaPart ds) @ [stopPart])"
      by (simp add: f)
    also have "\<dots> = handleMessage c2 stopPart"
      unfolding c2_def foldl_append by simp
    also have "\<dots> = (deliver c2 (concat ds))\<lparr>responseBuffer := []\<rparr>"
      using ne by (simp add: handleMessage_stop c2)
    also have "\<dots> = c1\<lparr>resolved := resolved c @ [(p, Some (concat ds))],
                         pendingResolve := None, firstResolved := True, responseBuffer := []\<rparr>"
      by (simp add: c2 deliver_def s)
    finally have "same_reply X (c1\<lparr>resolved := resolved c @ [(p, Some (concat ds))],
                         pendingResolve := None, firstResolved := True, responseBuffer := []\<rparr>)"
      using sr by simp
    then have "pendingResolve X = None" and "resolved X = resolved c @ [(p, Some (concat ds))]"
      by (simp_all add: same_reply_def)
    then show ?thesis
      by (simp add: agent_advance_idle)
  qed
  have frag: "pendingResolve X = Some p \<and> resolved X = resolved c \<and> responseBuffer X = concat ds"
    if "[m \<leftarrow> ms. \<not> neutral m] = startPart # map deltaPart ds
        \<or> [m \<leftarrow> ms. \<not> neutral m] = map deltaPart ds"
  proof -
    have "foldl handleMessage c1 [m \<leftarrow> ms. \<not> neutral m] = c1\<lparr>responseBuffer := concat ds\<rparr>"
      using that
    proof
      assume "[m \<leftarrow> ms. \<not> neutral m] = startPart # map deltaPart ds"
      then show ?thesis by (simp only: fragments_state)
    next
      assume "[m \<leftarrow> ms. \<not> neutral m] = map deltaPart ds"
      then show ?thesis by (simp add: foldl_delta s)
    qed
    with sr show ?thesis by (simp add: same_reply_def s)
  qed
  have 2: "resolved (agent_advance T X) = resolved c"
    if "[m \<leftarrow> ms. \<not> neutral m] = startPart # map deltaPart ds
        \<or> [m \<leftarrow> ms. \<not> neutral m] = map deltaPart ds" and T: "T < t0 + 15000"
      and e: "\<forall>d \<in> set (ag_timeouts c). T < d"
  proof -
    have "agent_advance T X = X"
      by (rule agent_advance_not_due) (use T e in \<open>simp add: Xt\<close>)
    then show ?thesis using frag [OF that(1)] by simp
  qed
  have 3: "resolved (agent_advance T X)
              = resolved c @ [(p, if concat ds = [] then None else Some (concat ds))]
            \<and> ag_ready (agent_advance T X) \<and> ag_wsOpen (agent_advance T X)
            \<and> ag_wsSent (agent_advance T X) = ag_wsSent X"
    if "[m \<leftarrow> ms. \<not> neutral m] = startPart # map deltaPart ds
        \<or> [m \<leftarrow> ms. \<not> neutral m] = map deltaPart ds" and T: "t0 + 15000 \<le> T"
  proof -
    from frag [OF that(1)] have p: "pendingResolve X = Some p" and r: "resolved X = resolved c"
      and b: "responseBuffer X = concat ds" by simp_all
    have m: "t0 + 15000 \<in> set (ag_timeouts X)" by (simp add: Xt)
    show ?thesis
      by (simp add: agent_advance_resolves [OF m T p] agent_advance_frame Xr Xo r b bufferOrNull_def)
  qed
  from 1 2 3 show ?thesis
    unfolding X_def by blast
qed

theorem sendText_wait_witness:
  "snd (sendText (agent_advance 109000 (agent_run
          [(100000, SendText ''first question'' True), (101000, Message startPart),
           (102000, Message (deltaPart ''Hello'')), (103000, Message stopPart)]
          (agent_new True))) 109000 ''what time is it'' True) = Inr 1
   \<and> ag_timeouts (agent_advance 109000 (agent_run
          [(100000, SendText ''first question'' True), (101000, Message startPart),
           (102000, Message (deltaPart ''Hello'')), (103000, Message stopPart)]
          (agent_new True))) = [115000]
   \<and> resolved (agent_advance 200000 (agent_run
        [(110000, Message startPart), (110500, Message (Ping (Some 7))),
         (111000, Message (deltaPart ''It is '')), (111500, Message (AudioEvent ''UklGRg=='')),
         (112000, Message (deltaPart ''noon'')), (113000, Message stopPart)]
        (fst (sendText (agent_advance 109000 (agent_run
          [(100000, SendText ''first question'' True), (101000, Message startPart),
           (102000, Message (deltaPart ''Hello'')), (103000, Message stopPart)]
          (agent_new True))) 109000 ''what time is it'' True))))
       = [(0, Some ''Hello''), (1, Some ''It is noon'')]
   \<and> resolved (agent_advance 114999 (agent_run
        [(110000, Message startPart), (111000, Message (deltaPart ''It is ''))]
        (fst (sendText (agent_advance 109000 (agent_run
          [(100000, SendText ''first question'' True), (101000, Message startPart),
           (102000, Message (deltaPart ''Hello'')), (103000, Message stopPart)]
          (agent_new True))) 109000 ''what time is it'' True))))
       = [(0, Some ''Hello'')]
   \<and> snd (sendText (agent_new True) 100000 ''what time is it'' True) = Inr 0
   \<and> resolved (agent_advance 115000 (agent_run
        [(101000, Message startPart), (102000, Message (deltaPart ''It is ''))]
        (fst (sendText (agent_new True) 100000 ''what time is it'' True))))
       = [(0, Some ''It is '')]
   \<and> resolved (agent_advance 115000 (agent_run []
        (fst (sendText (agent_new True) 100000 ''what time is it'' True))))
       = [(0, None)]
   \<and> ag_wsOpen (agent_advance 115000 (agent_run []
        (fst (sendText (agent_new True) 100000 ''what time is it'' True))))"
proof -
  let ?c = "agent_new True"
  let ?c1 = "fst (sendText ?c 100000 ''what time is it'' True)"
  let ?b = "agent_advance 109000 (agent_run
          [(100000, SendText ''first question'' True), (101000, Message startPart),
           (102000, Message (deltaPart ''Hello'')), (103000, Message stopPart)]
          (agent_new True))"
  let ?b1 = "fst (sendText ?b 109000 ''what time is it'' True)"
  let ?ms1 = "[startPart, Ping (Some 7), deltaPart ''It is '', AudioEvent ''UklGRg=='',
         deltaPart ''noon'', stopPart]"
  let ?tr1 = "[(110000 :: millis, Message startPart), (110500, Message (Ping (Some 7))),
         (111000, Message (deltaPart ''It is '')), (111500, Message (AudioEvent ''UklGRg=='')),
         (112000, Message (deltaPart ''noon'')), (113000, Message stopPart)]"
  let ?ms2 = "[startPart, deltaPart ''It is '']"
  let ?tr2 = "[(110000 :: millis, Message startPart), (111000, Message (deltaPart ''It is ''))]"
  let ?tr2' = "[(101000 :: millis, Message startPart), (102000, Message (deltaPart ''It is ''))]"
  let ?tr3 = "[] :: (millis \<times> agent_event) list"
  have bt: "ag_timeouts ?b = [115000]" by (simp add: agent_eval)
  have br: "resolved ?b = [(0, Some ''Hello'')]" by (simp add: agent_eval)
  have ct: "ag_timeouts ?c = []" by (simp add: agent_new_def)
  have cr: "resolved ?c = []" by (simp add: agent_new_def)
  have rb: "snd (sendText ?b 109000 ''what time is it'' True) = Inr 1"
    by (simp add: agent_eval)
  then have gb: "sendText ?b 109000 ''what time is it'' True = (?b1, Inr 1)"
    by (simp add: prod_eq_iff)
  have rc: "snd (sendText ?c 100000 ''what time is it'' True) = Inr 0"
    by (simp add: agent_eval)
  then have gc: "sendText ?c 100000 ''what time is it'' True = (?c1, Inr 0)"
    by (simp add: prod_eq_iff)
  have m1: "map snd ?tr1 = map Message ?ms1" and m2: "map snd ?tr2 = map Message ?ms2"
    and m2': "map snd ?tr2' = map Message ?ms2" and m3: "map snd ?tr3 = map Message []"
    by simp_all
  have w1: "\<forall>e \<in> set ?tr1. fst e < 109000 + 15000"
    and w2: "\<forall>e \<in> set ?tr2. fst e < 109000 + 15000"
    and w2': "\<forall>e \<in> set ?tr2'. fst e < 100000 + 15000"
    and w3: "\<forall>e \<in> set ?tr3. fst e < 100000 + 15000"
    by simp_all
  have o1: "\<forall>e \<in> set ?tr1. \<forall>d \<in> set (ag_timeouts ?b). fst e < d"
    and o2: "\<forall>e \<in> set ?tr2. \<forall>d \<in> set (ag_timeouts ?b). fst e < d"
    unfolding bt by simp_all
  have o2': "\<forall>e \<in> set ?tr2'. \<forall>d \<in> set (ag_timeouts ?c). fst e < d"
    and o3: "\<forall>e \<in> set ?tr3. \<forall>d \<in> set (ag_timeouts ?c). fst e < d"
    unfolding ct by simp_all
  have s1: "[m \<leftarrow> ?ms1. \<not> neutral m] = startPart # map deltaPart [''It is '', ''noon''] @ [stopPart]
      \<and> concat [''It is '', ''noon''] \<noteq> []"
    by (simp add: startPart_def stopPart_def deltaPart_def)
  have s2: "[m \<leftarrow> ?ms2. \<not> neutral m] = startPart # map deltaPart [''It is '']"
    by (simp add: startPart_def deltaPart_def)
  have s3: "[m \<leftarrow> []. \<not> neutral m] = map deltaPart []"
    by simp
  have e2: "(114999 :: millis) < 109000 + 15000 \<and> (\<forall>d \<in> set (ag_timeouts ?b). 114999 < d)"
    unfolding bt by simp
  have a: "resolved (agent_advance 200000 (agent_run ?tr1 ?b1))
      = resolved ?b @ [(1, Some (concat [''It is '', ''noon'']))]"
    using sendText_wait [OF gb m1 w1 o1, of "[''It is '', ''noon'']"] s1 by blast
  have b: "resolved (agent_advance 114999 (agent_run ?tr2 ?b1)) = resolved ?b"
    using sendText_wait [OF gb m2 w2 o2, of "[''It is '']" 114999] s2 e2 by blast
  have c: "resolved (agent_advance 115000 (agent_run ?tr2' ?c1))
      = resolved ?c @ [(0, if concat [''It is ''] = [] then None else Some (concat [''It is '']))]"
    using sendText_wait [OF gc m2' w2' o2', of "[''It is '']" 115000] s2 by simp
  have d: "resolved (agent_advance 115000 (agent_run ?tr3 ?c1))
      = resolved ?c @ [(0, if concat ([] :: string list) = [] then None else Some (concat []))]
    \<and> ag_wsOpen (agent_advance 115000 (agent_run ?tr3 ?c1))"
    using sendText_wait [OF gc m3 w3 o3, of "[]" 115000] s3 by simp
  show ?thesis
    using d unfolding a b c br cr rb rc bt by simp
qed

theorem sendText_timeout_counterexample:
  "resolved (agent_advance 115000 (agent_run
      [(100000, SendText ''what time is it'' True),
       (101000, Message startPart),
       (102000, Message (deltaPart ''It is ''))]
      (agent_new True)))
     = [(0, Some ''It is '')]"
  by (simp add: agent_eval)

text \<open>
  What the hypothesis on earlier timeouts excludes: the timeout of a first call, left
  scheduled after its wait has resolved, falls due before the reply to a second call has
  arrived. It resolves the wait of the second call after 6 of its 15 seconds, and the reply
  to the second call then reaches the callback for subsequent responses.
\<close>

lemma stale_timeout_resolves_later_wait:
  "resolved (agent_advance 200000 (agent_run
       [(100000, OnSubsequentResponse),
        (100000, SendText ''first question'' True), (101000, Message startPart),
        (102000, Message (deltaPart ''Hello'')), (103000, Message stopPart),
        (109000, SendText ''second question'' True), (116000, Message startPart),
        (117000, Message (deltaPart ''Second'')), (118000, Message stopPart)]
       (agent_new True)))
     = [(0, Some ''Hello''), (1, None)]
   \<and> subsequent (agent_advance 200000 (agent_run
       [(100000, OnSubsequentResponse),
        (100000, SendText ''first question'' True), (101000, Message startPart),
        (102000, Message (deltaPart ''Hello'')), (103000, Message stopPart),
        (109000, SendText ''second question'' True), (116000, Message startPart),
        (117000, Message (deltaPart ''Second'')), (118000, Message stopPart)]
       (agent_new True)))
     = [''Second'']"
  by (simp add: agent_eval)

text \<open>
  C6 (as amended). In any reachable state of a client in which a wait is pending, a further
  \<^verbatim>\<open>sendText\<close> that returns a promise is neither rejected nor queued: its message is the
  last one written to the socket, the reply buffer is emptied, and the client's single
  resolver now belongs to the new promise, which differs from the pending one. The earlier
  promise is never resolved afterwards, whatever events follow.
\<close>

theorem overlapping_sendText_replaces_wait:
  assumes "pendingResolve (agent_advance now (agent_run tr (agent_new v))) = Some p0"
    and "sendText (agent_advance now (agent_run tr (agent_new v))) now q connects = (c2, Inr p1)"
  shows "p1 \<noteq> p0
       \<and> pendingResolve c2 = Some p1
       \<and> responseBuffer c2 = []
       \<and> last (ag_wsSent c2) = UserMessage q
       \<and> (\<forall>tr' T. p0 \<notin> fst ` set (resolved (agent_advance T (agent_run tr' c2))))"
proof -
  let ?c = "agent_advance now (agent_run tr (agent_new v))"
  note s = sendText_ok [OF assms(2)]
  have inv: "ag_inv ?c" by (rule ag_inv_reachable)
  with assms(1) have p0: "p0 < nextPromise ?c" "p0 \<notin> fst ` set (resolved ?c)"
    by (simp_all add: ag_inv_def)
  have ne: "p1 \<noteq> p0" using p0(1) s(7) by simp
  have sent: "last (ag_wsSent c2) = UserMessage q"
    using assms(2)
    by (auto simp: sendText_def agent_onOpen_def sendInitData_def Let_def split: if_splits)
  have "abandoned p0 c2"
    using p0 ne s by (simp add: abandoned_def)
  then have "abandoned p0 (agent_advance T (agent_run tr' c2))" for tr' T
    by (rule abandoned_forever)
  then have "p0 \<notin> fst ` set (resolved (agent_advance T (agent_run tr' c2)))" for tr' T
    by (simp add: abandoned_def)
  with ne s(1,2) sent show ?thesis by blast
qed

theorem overlapping_sendText_replaces_wait_witness:
  "pendingResolve (agent_advance 109000 (agent_run
       [(100000, SendText ''first question'' True), (101000, Message startPart),
        (102000, Message (deltaPart ''Hel''))] (agent_new True))) = Some 0
   \<and> snd (sendText (agent_advance 109000 (agent_run
       [(100000, SendText ''first question'' True), (101000, Message startPart),
        (102000, Message (deltaPart ''Hel''))] (agent_new True))) 109000 ''second question'' True) = Inr 1
   \<and> 0 \<notin> fst ` set (resolved (agent_advance 200000 (agent_run
       [(110000, Message (deltaPart ''lo'')), (111000, Message stopPart)]
       (fst (sendText (agent_advance 109000 (agent_run
         [(100000, SendText ''first question'' True), (101000, Message startPart),
          (102000, Message (deltaPart ''Hel''))] (agent_new True))) 109000 ''second question'' True)))))"
proof -
  let ?c = "agent_advance 109000 (agent_run
       [(100000, SendText ''first question'' True), (101000, Message startPart),
        (102000, Message (deltaPart ''Hel''))] (agent_new True))"
  let ?c2 = "fst (sendText ?c 109000 ''second question'' True)"
  have h1: "pendingResolve ?c = Some 0" by (simp add: agent_eval)
  have r: "snd (sendText ?c 109000 ''second question'' True) = Inr 1"
    by (simp add: agent_eval)
  then have h2: "sendText ?c 109000 ''second question'' True = (?c2, Inr 1)"
    by (simp add: prod_eq_iff)
  note th = overlapping_sendText_replaces_wait [OF h1 h2]
  have "\<forall>tr' T. 0 \<notin> fst ` set (resolved (agent_advance T (agent_run tr' ?c2)))"
    using th by (elim conjE)
  then have "0 \<notin> fst ` set (resolved (agent_advance 200000 (agent_run
       [(110000, Message (deltaPart ''lo'')), (111000, Message stopPart)] ?c2)))"
    by blast
  with h1 r show ?thesis by blast
qed

theorem overlapping_sendText_counterexample:
  "responseBuffer (agent_advance 109000 (agent_run
       [(100000, SendText ''first question'' True), (101000, Message startPart),
        (102000, Message (deltaPart ''Hel''))] (agent_new True))) = ''Hel''
   \<and> responseBuffer (agent_run
       [(100000, SendText ''first question'' True), (101000, Message startPart),
        (102000, Message (deltaPart ''Hel'')), (109000, SendText ''second question'' True)]
       (agent_new True)) = []
   \<and> ag_wsSent (agent_run
       [(100000, SendText ''first question'' True), (101000, Message startPart),
        (102000, Message (deltaPart ''Hel'')), (109000, SendText ''second question'' True)]
       (agent_new True))
      = [ConversationInitiationClientData, UserMessage ''first question'',
         UserMessage ''second question'']
   \<and> resolved (agent_advance 200000 (agent_run
       [(100000, SendText ''first question'' True), (101000, Message startPart),
        (102000, Message (deltaPart ''Hel'')), (109000, SendText ''second question'' True),
        (110000, Message (deltaPart ''lo'')), (111000, Message stopPart)]
       (agent_new True)))
      = [(1, Some ''lo'')]"
  by (simp add: agent_eval)

text \<open>
  C10. A stop marker that arrives while the reply buffer is empty leaves the client as it
  is, so nothing reaches the waiting promise or the callback for subsequent responses; in
  particular a start marker followed directly by a stop marker delivers nothing. And in no
  reachable state has the empty string been delivered, to a promise or to the callback.
\<close>

theorem stop_on_empty_buffer_delivers_nothing:
  "(responseBuffer c = [] \<longrightarrow> handleMessage c (AgentChatResponsePart (Some (TextPart ''stop'' x))) = c)
   \<and> resolved (handleMessage (handleMessage c (AgentChatResponsePart (Some (TextPart ''start'' y))))
        (AgentChatResponsePart (Some (TextPart ''stop'' x)))) = resolved c
   \<and> subsequent (handleMessage (handleMessage c (AgentChatResponsePart (Some (TextPart ''start'' y))))
        (AgentChatResponsePart (Some (TextPart ''stop'' x)))) = subsequent c
   \<and> (\<forall>r \<in> set (resolved (agent_advance T (agent_run tr (agent_new v)))). snd r \<noteq> Some [])
   \<and> [] \<notin> set (subsequent (agent_advance T (agent_run tr (agent_new v))))"
  using nonempty_reachable [of T tr v]
  by (simp add: nonempty_inv_def)

theorem stop_on_empty_buffer_delivers_nothing_witness:
  "responseBuffer (fst (sendText (agent_new True) 100000 ''hello'' True)) = []
   \<and> handleMessage (fst (sendText (agent_new True) 100000 ''hello'' True))
        (AgentChatResponsePart (Some (TextPart ''stop'' [])))
      = fst (sendText (agent_new True) 100000 ''hello'' True)
   \<and> (0, Some ''Hi'') \<in> set (resolved (agent_advance 200000 (agent_run
        [(100000, SendText ''hello'' True), (101000, Message startPart),
         (102000, Message stopPart), (103000, Message startPart),
         (104000, Message (deltaPart ''Hi'')), (105000, Message stopPart)] (agent_new True))))
   \<and> snd (0 :: nat, Some ''Hi'') \<noteq> Some []"
proof -
  let ?c = "fst (sendText (agent_new True) 100000 ''hello'' True)"
  let ?tr = "[(100000 :: millis, SendText ''hello'' True), (101000, Message startPart),
         (102000, Message stopPart), (103000, Message startPart),
         (104000, Message (deltaPart ''Hi'')), (105000, Message stopPart)]"
  note th = stop_on_empty_buffer_delivers_nothing [of ?c "[]" "[]" 200000 ?tr True]
  have e: "responseBuffer ?c = []" by (simp add: agent_eval)
  have m: "(0, Some ''Hi'') \<in> set (resolved (agent_advance 200000 (agent_run ?tr (agent_new True))))"
    by (simp add: agent_eval)
  from th e have a: "handleMessage ?c (AgentChatResponsePart (Some (TextPart ''stop'' []))) = ?c"
    by blast
  from th have "\<forall>r \<in> set (resolved (agent_advance 200000 (agent_run ?tr (agent_new True)))).
      snd r \<noteq> Some []"
    by blast
  with m have b: "snd (0 :: nat, Some ''Hi'') \<noteq> Some []" by blast
  from e a m b show ?thesis by blast
qed

section \<open>Playback announcer: the stages of the operation\<close>

lemma twimlFallback_frame:
  "audioStore (fst (twimlFallback svc st callSid url confName)) = audioStore st"
  "blobTimers (fst (twimlFallback svc st callSid url confName)) = blobTimers st"
  "callMeta (fst (twimlFallback svc st callSid url confName)) = callMeta st"
  by (simp_all add: twimlFallback_def warn_def request_def Let_def split: sum.splits)

lemma announceTiers_frame:
  "audioStore (fst (announceTiers svc st callSid url confSid confName)) = audioStore st"
  "blobTimers (fst (announceTiers svc st callSid url confSid confName)) = blobTimers st"
  by (simp_all add: announceTiers_def twimlFallback_frame warn_def request_def Let_def
        split: sum.splits option.splits)

lemma resolveConference_frame:
  "audioStore (fst (resolveConference svc st callSid meta confName)) = audioStore st"
  "blobTimers (fst (resolveConference svc st callSid meta confName)) = blobTimers st"
  by (simp_all add: resolveConference_def warn_def request_def Let_def
        split: sum.splits option.splits list.splits)

lemma respondWithTts_skipped:
  assumes "\<not> configured cfg callSid"
  shows "\<exists>msg. respondWithTts cfg svc st now rnd callSid text = (warn msg st, Inr ())"
  using assms
  by (auto simp: configured_def respondWithTts_def truthy_def split: option.splits)

lemma respondWithTts_synth_failed:
  assumes "configured cfg callSid" and "synthesizeElevenlabs svc text = Inl err"
  shows "respondWithTts cfg svc st now rnd callSid text = (request (Synthesize text) st, Inl err)"
  using assms
  by (auto simp: configured_def respondWithTts_def truthy_def Let_def split: option.splits)

lemma respondWithTts_announces:
  assumes "twilioClient cfg" and "PUBLIC_BASE_URL cfg = Some base" and "base \<noteq> []"
    and "sid \<noteq> []" and "synthesizeElevenlabs svc text = Inr audioBuf"
  shows "respondWithTts cfg svc st now rnd (Some sid) text =
           announceTiers svc
             (fst (resolveConference svc (stored st now rnd text audioBuf) (Some sid)
                     (metaOf st (Some sid)) (orElse (conferenceName (metaOf st (Some sid))) (Some sid))))
             sid (base @ ''/audio/'' @ blobId now rnd @ ''.mp3'')
             (snd (resolveConference svc (stored st now rnd text audioBuf) (Some sid)
                     (metaOf st (Some sid)) (orElse (conferenceName (metaOf st (Some sid))) (Some sid))))
             (case orElse (conferenceName (metaOf st (Some sid))) (Some sid) of
                None \<Rightarrow> [] | Some n \<Rightarrow> n)"
  using assms
  by (simp add: respondWithTts_def stored_def metaOf_def request_def Let_def split: prod.splits)

lemma respondWithTts_store:
  assumes "configured cfg callSid" and "synthesizeElevenlabs svc text = Inr audioBuf"
  shows "audioStore (fst (respondWithTts cfg svc st now rnd callSid text))
           = (audioStore st)(blobId now rnd \<mapsto> audioBuf)"
    and "blobTimers (fst (respondWithTts cfg svc st now rnd callSid text))
           = blobTimers st @ [(now + 300000, blobId now rnd)]"
proof -
  from assms(1) obtain base sid where c: "twilioClient cfg" "PUBLIC_BASE_URL cfg = Some base"
    "base \<noteq> []" "callSid = Some sid" "sid \<noteq> []"
    by (auto simp: configured_def truthy_def)
  note r = respondWithTts_announces [OF c(1-3) c(5) assms(2), of st now rnd]
  show "audioStore (fst (respondWithTts cfg svc st now rnd callSid text))
           = (audioStore st)(blobId now rnd \<mapsto> audioBuf)"
    unfolding c(4) r by (simp add: announceTiers_frame resolveConference_frame stored_def)
  show "blobTimers (fst (respondWithTts cfg svc st now rnd callSid text))
           = blobTimers st @ [(now + 300000, blobId now rnd)]"
    unfolding c(4) r by (simp add: announceTiers_frame resolveConference_frame stored_def)
qed

section \<open>Playback announcer: identifiers and the blob store\<close>

lemma digit_no_dot: "n < 10 \<Longrightarrow> digit n \<noteq> CHR ''.''"
proof -
  assume "n < 10"
  then have "n \<in> {0, 1, 2, 3, 4, 5, 6, 7, 8, 9}" by auto
  then show ?thesis by (auto simp: digit_def)
qed

lemma decimal_no_dot: "CHR ''.'' \<notin> set (decimal n)"
proof (induction n rule: decimal.induct)
  case (1 n)
  show ?case
  proof (cases "n < 10")
    case True
    then show ?thesis using digit_no_dot [of n] by (subst decimal.simps) auto
  next
    case False
    have "n mod 10 < 10" by simp
    then have "digit (n mod 10) \<noteq> CHR ''.''" by (rule digit_no_dot)
    with False "1.IH" show ?thesis by (subst decimal.simps) auto
  qed
qed

lemma base36_no_dot: "base36 d \<noteq> CHR ''.''"
proof -
  have "base36 d \<in> set ''0123456789abcdefghijklmnopqrstuvwxyz''"
    unfolding base36_def by (rule nth_mem) simp
  then show ?thesis by auto
qed

lemma blobId_no_dot: "CHR ''.'' \<notin> set (blobId now rnd)"
  by (auto simp: blobId_def numberToString_def decimal_no_dot base36_no_dot [THEN not_sym])

lemma replaceFirst_suffix:
  "CHR ''.'' \<notin> set s \<Longrightarrow> replaceFirst ''.mp3'' [] (s @ ''.mp3'') = s"
  by (induction s) auto

lemma replaceFirst_absent:
  "CHR ''.'' \<notin> set s \<Longrightarrow> replaceFirst ''.mp3'' [] s = s"
  by (induction s) auto

lemma fireBlobTimers_store:
  "audioStore (fireBlobTimers es st) k = (if k \<in> snd ` set es then None else audioStore st k)"
  by (induction es arbitrary: st) auto

lemma expireBlobs_store:
  "audioStore (expireBlobs t st) k =
     (if \<exists>e \<in> set (blobTimers st). fst e \<le> t \<and> snd e = k then None else audioStore st k)"
  by (auto simp: expireBlobs_def fireBlobTimers_store)

lemma announceTiers_cases:
  "(confSid = Some cs \<and> cs \<noteq> [] \<and> conferenceUpdate svc cs url = Inr () \<longrightarrow>
      requests (fst (announceTiers svc st sid url confSid confName))
        = requests st @ [ConferenceAnnounce cs url]
      \<and> warnings (fst (announceTiers svc st sid url confSid confName)) = warnings st
      \<and> snd (announceTiers svc st sid url confSid confName) = Inr ())
   \<and> (confSid = Some cs \<and> cs \<noteq> [] \<and> conferenceUpdate svc cs url = Inl e1
        \<and> participantUpdate svc cs sid url = Inr () \<longrightarrow>
      requests (fst (announceTiers svc st sid url confSid confName))
        = requests st @ [ConferenceAnnounce cs url, ParticipantAnnounce cs sid url]
      \<and> warnings (fst (announceTiers svc st sid url confSid confName))
        = warnings st @ [''conference announce failed, trying participant '' @ e1]
      \<and> snd (announceTiers svc st sid url confSid confName) = Inr ())
   \<and> (confSid = Some cs \<and> cs \<noteq> [] \<and> conferenceUpdate svc cs url = Inl e1
        \<and> participantUpdate svc cs sid url = Inl e2 \<longrightarrow>
      requests (fst (announceTiers svc st sid url confSid confName))
        = requests st @ [ConferenceAnnounce cs url, ParticipantAnnounce cs sid url,
                         CallUpdate sid (twimlPlay url confName)]
      \<and> warnings (fst (announceTiers svc st sid url confSid confName))
        = warnings st @ [''conference announce failed, trying participant '' @ e1,
                         ''participant announce failed '' @ e2,
                         ''respondWithTts: falling back to TwiML update'']
      \<and> snd (announceTiers svc st sid url confSid confName)
        = callUpdate svc sid (twimlPlay url confName))
   \<and> (\<not> truthy confSid \<longrightarrow>
      requests (fst (announceTiers svc st sid url confSid confName))
        = requests st @ [CallUpdate sid (twimlPlay url confName)]
      \<and> warnings (fst (announceTiers svc st sid url confSid confName))
        = warnings st @ [''respondWithTts: falling back to TwiML update'']
      \<and> snd (announceTiers svc st sid url confSid confName)
        = callUpdate svc sid (twimlPlay url confName))
   \<and> (snd (announceTiers svc st sid url confSid confName) = Inl err \<longrightarrow>
      callUpdate svc sid (twimlPlay url confName) = Inl err
      \<and> (\<forall>c. confSid = Some c \<and> c \<noteq> [] \<longrightarrow>
            (\<exists>a b. conferenceUpdate svc c url = Inl a \<and> participantUpdate svc c sid url = Inl b)))"
proof -
  have fb: "twimlFallback svc s sid url confName =
      ((request (CallUpdate sid (twimlPlay url confName))
          (warn ''respondWithTts: falling back to TwiML update'' s)),
       callUpdate svc sid (twimlPlay url confName))" for s
    by (simp add: twimlFallback_def Let_def split: sum.splits)
  show ?thesis
    by (simp add: announceTiers_def fb request_def warn_def truthy_def Let_def
        split: sum.splits option.splits)
qed

section \<open>Playback announcer: the requests of an operation\<close>

lemma announceTiers_requests:
  "\<exists>rs. requests (fst (announceTiers svc s sid url cs cn)) = requests s @ rs
        \<and> (\<forall>c tw. CallUpdate c tw \<in> set rs \<longrightarrow> c = sid \<and> tw = twimlPlay url cn)"
  by (auto simp: announceTiers_def twimlFallback_def warn_def request_def Let_def
        split: sum.splits option.splits)

lemma resolveConference_requests:
  "n \<noteq> [] \<Longrightarrow>
   requests (fst (resolveConference svc s c m (Some n))) = requests s @ [ConferencesList n]"
  by (simp add: resolveConference_def warn_def request_def Let_def
        split: sum.splits option.splits list.splits)

lemma respondWithTts_no_metadata:
  assumes "twilioClient cfg" and "PUBLIC_BASE_URL cfg = Some base" and "base \<noteq> []"
    and "sid \<noteq> []" and "synthesizeElevenlabs svc text = Inr audioBuf"
    and "callMeta st (Some sid) = None"
  shows "\<exists>rs. requests (fst (respondWithTts cfg svc st now rnd (Some sid) text))
                 = requests st @ [Synthesize text, ConferencesList sid] @ rs
           \<and> (\<forall>c tw. CallUpdate c tw \<in> set rs \<longrightarrow>
                 c = sid \<and> tw = twimlPlay (base @ ''/audio/'' @ blobId now rnd @ ''.mp3'') sid)"
proof -
  let ?s1 = "stored st now rnd text audioBuf"
  have m: "metaOf st (Some sid) = emptyMeta"
    using assms(6) by (simp add: metaOf_def)
  have n: "orElse (conferenceName emptyMeta) (Some sid) = Some sid"
    by (simp add: emptyMeta_def orElse_def truthy_def)
  let ?rc = "resolveConference svc ?s1 (Some sid) emptyMeta (Some sid)"
  have eq: "respondWithTts cfg svc st now rnd (Some sid) text
      = announceTiers svc (fst ?rc) sid (base @ ''/audio/'' @ blobId now rnd @ ''.mp3'') (snd ?rc) sid"
    unfolding respondWithTts_announces [OF assms(1-5)] m n by simp
  have s1: "requests ?s1 = requests st @ [Synthesize text]"
    by (simp add: stored_def request_def)
  have rc: "requests (fst ?rc) = requests st @ [Synthesize text, ConferencesList sid]"
    by (simp add: resolveConference_requests [OF assms(4)] s1)
  from announceTiers_requests [of svc "fst ?rc" sid "base @ ''/audio/'' @ blobId now rnd @ ''.mp3''"
      "snd ?rc" sid]
  show ?thesis
    unfolding eq rc by simp
qed

section \<open>Playback announcer: distinct identifiers\<close>

lemma digit_inj: "n < 10 \<Longrightarrow> m < 10 \<Longrightarrow> digit n = digit m \<Longrightarrow> n = m"
proof -
  assume a: "n < 10" "m < 10" "digit n = digit m"
  have d: "distinct ''0123456789''" by simp
  have "n < length ''0123456789''" "m < length ''0123456789''" using a by simp_all
  from nth_eq_iff_index_eq [OF d this] a(3) show ?thesis by (simp add: digit_def)
qed

lemma digit_no_dash: "n < 10 \<Longrightarrow> digit n \<noteq> CHR ''-''"
proof -
  assume "n < 10"
  then have "digit n \<in> set ''0123456789''"
    unfolding digit_def by (intro nth_mem) simp
  then show ?thesis by auto
qed

lemma decimal_nonempty: "decimal n \<noteq> []"
  by (subst decimal.simps) simp

lemma decimal_no_dash: "CHR ''-'' \<notin> set (decimal n)"
proof (induction n rule: decimal.induct)
  case (1 n)
  show ?case
  proof (cases "n < 10")
    case True
    then show ?thesis using digit_no_dash [of n] by (subst decimal.simps) auto
  next
    case False
    have "n mod 10 < 10" by simp
    then have "digit (n mod 10) \<noteq> CHR ''-''" by (rule digit_no_dash)
    with False "1.IH" show ?thesis by (subst decimal.simps) auto
  qed
qed

lemma decimal_inj: "decimal n = decimal m \<Longrightarrow> n = m"
proof (induction n arbitrary: m rule: decimal.induct)
  case (1 n)
  have un: "decimal n = (if n < 10 then [digit n] else decimal (n div 10) @ [digit (n mod 10)])"
    by (subst decimal.simps) simp
  have um: "decimal m = (if m < 10 then [digit m] else decimal (m div 10) @ [digit (m mod 10)])"
    by (subst decimal.simps) simp
  show ?case
  proof (cases "n < 10")
    case n: True
    show ?thesis
    proof (cases "m < 10")
      case True
      with n "1.prems" un um show ?thesis by (auto dest: digit_inj)
    next
      case False
      with n "1.prems" un um decimal_nonempty [of "m div 10"] show ?thesis by auto
    qed
  next
    case n: False
    show ?thesis
    proof (cases "m < 10")
      case True
      with n "1.prems" un um decimal_nonempty [of "n div 10"] show ?thesis by auto
    next
      case False
      with n "1.prems" un um have e: "decimal (n div 10) = decimal (m div 10)"
        and d: "digit (n mod 10) = digit (m mod 10)" by auto
      from "1.IH" [OF n e] have q: "n div 10 = m div 10" .
      have "n mod 10 = m mod 10"
        by (rule digit_inj [OF _ _ d]) simp_all
      with q show ?thesis
        by (metis div_mult_mod_eq)
    qed
  qed
qed

lemma base36_no_dash: "base36 d \<noteq> CHR ''-''"
proof -
  have "base36 d \<in> set ''0123456789abcdefghijklmnopqrstuvwxyz''"
    unfolding base36_def by (rule nth_mem) simp
  then show ?thesis by auto
qed

lemma split_at_dash:
  assumes "CHR ''-'' \<notin> set a" and "CHR ''-'' \<notin> set a'"
    and "a @ CHR ''-'' # b = a' @ CHR ''-'' # b'"
  shows "a = a' \<and> b = b'"
  using assms
proof (induction a arbitrary: a')
  case Nil
  then show ?case by (cases a') auto
next
  case (Cons x a)
  then show ?case by (cases a') auto
qed

lemma blobId_inject:
  assumes "blobId now rnd = blobId now' rnd'"
  shows "now = now' \<and> map base36 rnd = map base36 rnd'"
proof -
  let ?r = "map base36 rnd" and ?r' = "map base36 rnd'"
  have nd: "CHR ''-'' \<notin> set (decimal k)" for k by (rule decimal_no_dash)
  have hd: "hd (decimal k) \<noteq> CHR ''-''" for k
    using decimal_nonempty [of k] nd [of k] by (cases "decimal k") auto
  consider (pp) "0 \<le> now" "0 \<le> now'" | (nn) "now < 0" "now' < 0"
    | (pn) "0 \<le> now" "now' < 0" | (np) "now < 0" "0 \<le> now'"
    by linarith
  then show ?thesis
  proof cases
    case pp
    with assms have "decimal (nat now) @ CHR ''-'' # ?r = decimal (nat now') @ CHR ''-'' # ?r'"
      by (simp add: blobId_def numberToString_def)
    from split_at_dash [OF nd nd this] pp show ?thesis
      by (auto dest: decimal_inj)
  next
    case nn
    with assms have "decimal (nat (- now)) @ CHR ''-'' # ?r = decimal (nat (- now')) @ CHR ''-'' # ?r'"
      by (simp add: blobId_def numberToString_def)
    from split_at_dash [OF nd nd this] nn show ?thesis
      by (auto dest: decimal_inj)
  next
    case pn
    with assms have "decimal (nat now) @ CHR ''-'' # ?r
        = CHR ''-'' # decimal (nat (- now')) @ CHR ''-'' # ?r'"
      by (simp add: blobId_def numberToString_def)
    then have "hd (decimal (nat now) @ CHR ''-'' # ?r) = CHR ''-''" by simp
    with hd [of "nat now"] decimal_nonempty [of "nat now"] show ?thesis by simp
  next
    case np
    with assms [symmetric] have "decimal (nat now') @ CHR ''-'' # ?r'
        = CHR ''-'' # decimal (nat (- now)) @ CHR ''-'' # ?r"
      by (simp add: blobId_def numberToString_def)
    then have "hd (decimal (nat now') @ CHR ''-'' # ?r') = CHR ''-''" by simp
    with hd [of "nat now'"] decimal_nonempty [of "nat now'"] show ?thesis by simp
  qed
qed

section \<open>Playback announcer: a blob among the operations before and after it\<close>

lemma respondWithTts_blob_cases:
  "(audioStore (fst (respondWithTts cfg svc st now rnd callSid text)) = audioStore st
      \<and> blobTimers (fst (respondWithTts cfg svc st now rnd callSid text)) = blobTimers st)
   \<or> (\<exists>buf. audioStore (fst (respondWithTts cfg svc st now rnd callSid text))
                = (audioStore st)(blobId now rnd \<mapsto> buf)
          \<and> blobTimers (fst (respondWithTts cfg svc st now rnd callSid text))
                = blobTimers st @ [(now + 300000, blobId now rnd)])"
proof (cases "configured cfg callSid")
  case False
  from respondWithTts_skipped [OF this, of svc st now rnd "text"] show ?thesis
    by (auto simp: warn_def)
next
  case True
  show ?thesis
  proof (cases "synthesizeElevenlabs svc text")
    case (Inl err)
    show ?thesis
      by (simp add: respondWithTts_synth_failed [OF True Inl] request_def)
  next
    case (Inr buf)
    from respondWithTts_store [OF True Inr, of st now rnd] show ?thesis by blast
  qed
qed

lemma expireBlobs_timers:
  "blobTimers (expireBlobs t st) = [e \<leftarrow> blobTimers st. \<not> fst e \<le> t]"
proof -
  have "blobTimers (fireBlobTimers es s) = blobTimers s" for es s
    by (induction es arbitrary: s) simp_all
  then show ?thesis by (simp add: expireBlobs_def)
qed

lemma playback_run_append:
  "playback_run cfg (xs @ ys) st = playback_run cfg ys (playback_run cfg xs st)"
  by (induction xs arbitrary: st) simp_all

lemma draws_append: "draws (xs @ ys) = draws xs @ draws ys"
  by (induction xs rule: draws.induct) simp_all

lemma draws_other:
  assumes "(now, map base36 rnd) \<notin> set (draws tr)"
    and "(t, Respond svc c x r) \<in> set tr"
  shows "blobId t r \<noteq> blobId now rnd"
proof
  assume "blobId t r = blobId now rnd"
  from blobId_inject [OF this] have e: "t = now" "map base36 r = map base36 rnd" by simp_all
  have "(t, map base36 r) \<in> set (draws tr)"
    using assms(2) by (induction tr rule: draws.induct) auto
  with assms(1) e show False by simp
qed

lemma playback_handle_other:
  assumes "\<forall>svc c x r. e = Respond svc c x r \<longrightarrow> blobId t r \<noteq> k"
  shows "audioStore (playback_handle cfg t e st) k = audioStore st k"
    and "\<exists>new. blobTimers (playback_handle cfg t e st) = blobTimers st @ new
           \<and> k \<notin> snd ` set new"
proof -
  show "audioStore (playback_handle cfg t e st) k = audioStore st k"
  proof (cases e)
    case (Respond svc c x r)
    with assms have "blobId t r \<noteq> k" by simp
    with respondWithTts_blob_cases [of cfg svc st t r c x] show ?thesis
      by (auto simp: Respond)
  qed simp
  show "\<exists>new. blobTimers (playback_handle cfg t e st) = blobTimers st @ new
           \<and> k \<notin> snd ` set new"
  proof (cases e)
    case (Respond svc c x r)
    with assms have ne: "blobId t r \<noteq> k" by simp
    from respondWithTts_blob_cases [of cfg svc st t r c x]
    show ?thesis
    proof
      assume "audioStore (fst (respondWithTts cfg svc st t r c x)) = audioStore st
        \<and> blobTimers (fst (respondWithTts cfg svc st t r c x)) = blobTimers st"
      then have "blobTimers (playback_handle cfg t e st) = blobTimers st @ []
           \<and> k \<notin> snd ` set []"
        by (simp add: Respond)
      then show ?thesis by (rule exI)
    next
      assume "\<exists>buf. audioStore (fst (respondWithTts cfg svc st t r c x))
                = (audioStore st)(blobId t r \<mapsto> buf)
          \<and> blobTimers (fst (respondWithTts cfg svc st t r c x))
                = blobTimers st @ [(t + 300000, blobId t r)]"
      then have "blobTimers (playback_handle cfg t e st) = blobTimers st @ [(t + 300000, blobId t r)]
           \<and> k \<notin> snd ` set [(t + 300000, blobId t r)]"
        using ne by (auto simp: Respond)
      then show ?thesis by (rule exI)
    qed
  next
    case (SetMeta c m)
    have "blobTimers (playback_handle cfg t e st) = blobTimers st @ [] \<and> k \<notin> snd ` set []"
      by (simp add: SetMeta)
    then show ?thesis by (rule exI)
  qed
qed

lemma run_keeps_fresh:
  assumes "k \<notin> snd ` set (blobTimers st)"
    and "\<forall>e \<in> set tr. \<forall>svc c x r. snd e = Respond svc c x r \<longrightarrow> blobId (fst e) r \<noteq> k"
  shows "k \<notin> snd ` set (blobTimers (playback_run cfg tr st))"
  using assms
proof (induction tr arbitrary: st)
  case Nil
  then show ?case by simp
next
  case (Cons e tr)
  let ?s = "expireBlobs (fst e) st"
  have a: "k \<notin> snd ` set (blobTimers ?s)"
    using Cons.prems(1) by (auto simp: expireBlobs_timers)
  from Cons.prems(2) have o: "\<forall>svc c x r. snd e = Respond svc c x r \<longrightarrow> blobId (fst e) r \<noteq> k"
    and rest: "\<forall>e \<in> set tr. \<forall>svc c x r. snd e = Respond svc c x r \<longrightarrow> blobId (fst e) r \<noteq> k"
    by simp_all
  from playback_handle_other(2) [OF o, of cfg ?s] obtain new
    where n: "blobTimers (playback_handle cfg (fst e) (snd e) ?s) = blobTimers ?s @ new"
      "k \<notin> snd ` set new" by blast
  have "k \<notin> snd ` set (blobTimers (playback_handle cfg (fst e) (snd e) ?s))"
    unfolding n(1) using a n(2) by (simp add: image_Un)
  from Cons.IH [OF this rest] show ?case by simp
qed

lemma run_blob_kept:
  assumes "audioStore st k = Some buf"
    and "\<forall>e \<in> set (blobTimers st). snd e = k \<longrightarrow> T < fst e"
    and "\<forall>e \<in> set tr. fst e \<le> T"
    and "\<forall>e \<in> set tr. \<forall>svc c x r. snd e = Respond svc c x r \<longrightarrow> blobId (fst e) r \<noteq> k"
  shows "audioStore (expireBlobs T (playback_run cfg tr st)) k = Some buf"
  using assms
proof (induction tr arbitrary: st)
  case Nil
  have "\<not> (\<exists>e \<in> set (blobTimers st). fst e \<le> T \<and> snd e = k)"
    using Nil(2) by fastforce
  then show ?case
    by (simp add: expireBlobs_store Nil(1))
next
  case (Cons e tr)
  let ?s = "expireBlobs (fst e) st"
  let ?h = "playback_handle cfg (fst e) (snd e) ?s"
  from Cons.prems(3) have t: "fst e \<le> T" and restT: "\<forall>e \<in> set tr. fst e \<le> T" by simp_all
  from Cons.prems(4) have o: "\<forall>svc c x r. snd e = Respond svc c x r \<longrightarrow> blobId (fst e) r \<noteq> k"
    and rest: "\<forall>e \<in> set tr. \<forall>svc c x r. snd e = Respond svc c x r \<longrightarrow> blobId (fst e) r \<noteq> k"
    by simp_all
  have "\<not> (\<exists>x \<in> set (blobTimers st). fst x \<le> fst e \<and> snd x = k)"
    using Cons.prems(2) t by fastforce
  then have s1: "audioStore ?s k = Some buf"
    by (simp add: expireBlobs_store Cons.prems(1))
  have s2: "\<forall>x \<in> set (blobTimers ?s). snd x = k \<longrightarrow> T < fst x"
    using Cons.prems(2) by (simp add: expireBlobs_timers)
  have h1: "audioStore ?h k = Some buf"
    by (simp add: playback_handle_other(1) [OF o] s1)
  from playback_handle_other(2) [OF o, of cfg ?s] obtain new
    where n: "blobTimers ?h = blobTimers ?s @ new" "k \<notin> snd ` set new" by blast
  have h2: "\<forall>x \<in> set (blobTimers ?h). snd x = k \<longrightarrow> T < fst x"
    using s2 n by auto
  from Cons.IH [OF h1 h2 restT rest] show ?case by simp
qed

lemma run_blob_gone:
  assumes "audioStore st k = None \<or> (\<exists>e \<in> set (blobTimers st). snd e = k \<and> fst e \<le> T)"
    and "\<forall>e \<in> set tr. \<forall>svc c x r. snd e = Respond svc c x r \<longrightarrow> blobId (fst e) r \<noteq> k"
  shows "audioStore (expireBlobs T (playback_run cfg tr st)) k = None"
  using assms
proof (induction tr arbitrary: st)
  case Nil
  then show ?case
    by (auto simp: expireBlobs_store)
next
  case (Cons e tr)
  let ?s = "expireBlobs (fst e) st"
  let ?h = "playback_handle cfg (fst e) (snd e) ?s"
  from Cons.prems(2) have o: "\<forall>svc c x r. snd e = Respond svc c x r \<longrightarrow> blobId (fst e) r \<noteq> k"
    and rest: "\<forall>e \<in> set tr. \<forall>svc c x r. snd e = Respond svc c x r \<longrightarrow> blobId (fst e) r \<noteq> k"
    by simp_all
  have s: "audioStore ?s k = None \<or> (\<exists>x \<in> set (blobTimers ?s). snd x = k \<and> fst x \<le> T)"
  proof (cases "\<exists>x \<in> set (blobTimers st). fst x \<le> fst e \<and> snd x = k")
    case True
    then show ?thesis by (simp add: expireBlobs_store)
  next
    case False
    from Cons.prems(1) show ?thesis
    proof
      assume "audioStore st k = None"
      then show ?thesis by (simp add: expireBlobs_store)
    next
      assume "\<exists>x \<in> set (blobTimers st). snd x = k \<and> fst x \<le> T"
      then obtain x where x: "x \<in> set (blobTimers st)" "snd x = k" "fst x \<le> T" by blast
      with False have "\<not> fst x \<le> fst e" by blast
      with x have "x \<in> set (blobTimers ?s)" by (simp add: expireBlobs_timers)
      with x show ?thesis by blast
    qed
  qed
  from playback_handle_other(2) [OF o, of cfg ?s] obtain new
    where n: "blobTimers ?h = blobTimers ?s @ new" by blast
  have "audioStore ?h k = None \<or> (\<exists>x \<in> set (blobTimers ?h). snd x = k \<and> fst x \<le> T)"
    using s by (auto simp: playback_handle_other(1) [OF o] n)
  from Cons.IH [OF this rest] show ?case by simp
qed

lemma draws_others:
  assumes "(now, map base36 rnd) \<notin> set (draws tr)"
  shows "\<forall>e \<in> set tr. \<forall>svc c x r. snd e = Respond svc c x r \<longrightarrow> blobId (fst e) r \<noteq> blobId now rnd"
proof (intro ballI allI impI)
  fix e svc c x r
  assume "e \<in> set tr" and "snd e = Respond svc c x r"
  then have "(fst e, Respond svc c x r) \<in> set tr" by (metis prod.collapse)
  from draws_other [OF assms this] show "blobId (fst e) r \<noteq> blobId now rnd" .
qed

section \<open>Playback announcer: the properties\<close>

lemmas play_eval = respondWithTts_def resolveConference_def announceTiers_def twimlFallback_def
  request_def warn_def playback_init_def emptyMeta_def orElse_def truthy_def twimlPlay_def
  serveAudio_def expireBlobs_def stored_def metaOf_def configured_def
  voiceInbound_def constantServices_def Let_def

lemma blobId_example:
  "blobId 1700000000000 [4, 15, 35, 34, 24, 8, 2, 22, 31, 34, 27] = ''1700000000000-4fzyo82mvyr''"
  by (simp add: blobId_def numberToString_def decimal.simps digit_def base36_def)

text \<open>
  C7 (as amended). When the telephony client is not configured, or no base playback URL is
  configured, or the call identifier is missing, \<^verbatim>\<open>respondWithTts\<close> returns normally and
  does nothing but log one warning: no request is made to any service, no blob is stored,
  no deletion is scheduled and the call metadata is untouched. Missing session metadata is
  not among these conditions: with all three settings present and no metadata for the call,
  the first thing the operation does is to request the synthesis; and when the synthesis
  returns a buffer, the blob is stored, the next request looks the conference up under the
  call identifier, and any replacement of the call's instructions is for that call and
  dials the conference named by the call identifier.
\<close>

theorem announce_skipped_when_unconfigured:
  "(\<not> twilioClient cfg \<or> \<not> truthy (PUBLIC_BASE_URL cfg) \<or> \<not> truthy callSid \<longrightarrow>
      snd (respondWithTts cfg svc st now rnd callSid text) = Inr ()
      \<and> requests (fst (respondWithTts cfg svc st now rnd callSid text)) = requests st
      \<and> audioStore (fst (respondWithTts cfg svc st now rnd callSid text)) = audioStore st
      \<and> blobTimers (fst (respondWithTts cfg svc st now rnd callSid text)) = blobTimers st
      \<and> callMeta (fst (respondWithTts cfg svc st now rnd callSid text)) = callMeta st
      \<and> length (warnings (fst (respondWithTts cfg svc st now rnd callSid text)))
          = Suc (length (warnings st)))
   \<and> (twilioClient cfg \<and> truthy (PUBLIC_BASE_URL cfg) \<and> truthy callSid \<and> callMeta st callSid = None \<longrightarrow>
      take (Suc (length (requests st))) (requests (fst (respondWithTts cfg svc st now rnd callSid text)))
        = requests st @ [Synthesize text])
   \<and> (twilioClient cfg \<and> PUBLIC_BASE_URL cfg = Some base \<and> base \<noteq> [] \<and> callSid = Some sid \<and> sid \<noteq> []
        \<and> callMeta st callSid = None \<and> synthesizeElevenlabs svc text = Inr audioBuf \<longrightarrow>
      audioStore (fst (respondWithTts cfg svc st now rnd callSid text)) (blobId now rnd) = Some audioBuf
      \<and> take (Suc (Suc (length (requests st))))
            (requests (fst (respondWithTts cfg svc st now rnd callSid text)))
          = requests st @ [Synthesize text, ConferencesList sid]
      \<and> (\<forall>c tw. CallUpdate c tw
                   \<in> set (drop (length (requests st))
                            (requests (fst (respondWithTts cfg svc st now rnd callSid text)))) \<longrightarrow>
            c = sid \<and> tw = twimlPlay (base @ ''/audio/'' @ blobId now rnd @ ''.mp3'') sid))"
proof (intro conjI impI)
  assume "\<not> twilioClient cfg \<or> \<not> truthy (PUBLIC_BASE_URL cfg) \<or> \<not> truthy callSid"
  then have "\<not> configured cfg callSid" by (auto simp: configured_def)
  from respondWithTts_skipped [OF this, of svc st now rnd "text"]
  obtain msg where r: "respondWithTts cfg svc st now rnd callSid text = (warn msg st, Inr ())" ..
  show "snd (respondWithTts cfg svc st now rnd callSid text) = Inr ()"
    and "requests (fst (respondWithTts cfg svc st now rnd callSid text)) = requests st"
    and "audioStore (fst (respondWithTts cfg svc st now rnd callSid text)) = audioStore st"
    and "blobTimers (fst (respondWithTts cfg svc st now rnd callSid text)) = blobTimers st"
    and "callMeta (fst (respondWithTts cfg svc st now rnd callSid text)) = callMeta st"
    and "length (warnings (fst (respondWithTts cfg svc st now rnd callSid text)))
          = Suc (length (warnings st))"
    by (simp_all add: r warn_def)
next
  assume a: "twilioClient cfg \<and> truthy (PUBLIC_BASE_URL cfg) \<and> truthy callSid \<and> callMeta st callSid = None"
  then have c: "configured cfg callSid" by (simp add: configured_def)
  from a obtain b s where b: "twilioClient cfg" "PUBLIC_BASE_URL cfg = Some b"
    "b \<noteq> []" "callSid = Some s" "s \<noteq> []" "callMeta st (Some s) = None"
    by (auto simp: truthy_def)
  show "take (Suc (length (requests st))) (requests (fst (respondWithTts cfg svc st now rnd callSid text)))
        = requests st @ [Synthesize text]"
  proof (cases "synthesizeElevenlabs svc text")
    case (Inl err)
    show ?thesis
      by (simp add: respondWithTts_synth_failed [OF c Inl] request_def)
  next
    case (Inr buf)
    from respondWithTts_no_metadata [OF b(1-3) b(5) Inr b(6), of now rnd]
    obtain rs where "requests (fst (respondWithTts cfg svc st now rnd (Some s) text))
                 = requests st @ [Synthesize text, ConferencesList s] @ rs" by blast
    then show ?thesis by (simp add: b(4))
  qed
next
  assume a: "twilioClient cfg \<and> PUBLIC_BASE_URL cfg = Some base \<and> base \<noteq> [] \<and> callSid = Some sid
      \<and> sid \<noteq> [] \<and> callMeta st callSid = None \<and> synthesizeElevenlabs svc text = Inr audioBuf"
  then have b: "twilioClient cfg" "PUBLIC_BASE_URL cfg = Some base" "base \<noteq> []" "sid \<noteq> []"
    "synthesizeElevenlabs svc text = Inr audioBuf" "callMeta st (Some sid) = None"
    and cs: "callSid = Some sid"
    by auto
  have c: "configured cfg callSid"
    using b cs by (simp add: configured_def truthy_def)
  from respondWithTts_no_metadata [OF b, of now rnd]
  obtain rs where rq: "requests (fst (respondWithTts cfg svc st now rnd callSid text))
                 = requests st @ [Synthesize text, ConferencesList sid] @ rs"
    and cu: "\<forall>c tw. CallUpdate c tw \<in> set rs \<longrightarrow>
                 c = sid \<and> tw = twimlPlay (base @ ''/audio/'' @ blobId now rnd @ ''.mp3'') sid"
    unfolding cs by blast
  show "audioStore (fst (respondWithTts cfg svc st now rnd callSid text)) (blobId now rnd) = Some audioBuf"
    by (simp add: respondWithTts_store(1) [OF c b(5)])
  show "take (Suc (Suc (length (requests st))))
            (requests (fst (respondWithTts cfg svc st now rnd callSid text)))
          = requests st @ [Synthesize text, ConferencesList sid]"
    by (simp add: rq)
  show "\<forall>c tw. CallUpdate c tw
                   \<in> set (drop (length (requests st))
                            (requests (fst (respondWithTts cfg svc st now rnd callSid text)))) \<longrightarrow>
            c = sid \<and> tw = twimlPlay (base @ ''/audio/'' @ blobId now rnd @ ''.mp3'') sid"
    unfolding rq using cu by auto
qed

theorem announce_skipped_when_unconfigured_witness:
  "snd (respondWithTts \<lparr>twilioClient = True, PUBLIC_BASE_URL = None\<rparr>
       (constantServices [0x49, 0x44, 0x33] [] (Inr ()) (Inr ()) (Inr ()))
       playback_init 1700000000000 [4, 15, 35, 34, 24, 8, 2, 22, 31, 34, 27] (Some ''CA1'') ''It is noon'') = Inr ()
   \<and> requests (fst (respondWithTts \<lparr>twilioClient = True, PUBLIC_BASE_URL = None\<rparr>
       (constantServices [0x49, 0x44, 0x33] [] (Inr ()) (Inr ()) (Inr ()))
       playback_init 1700000000000 [4, 15, 35, 34, 24, 8, 2, 22, 31, 34, 27] (Some ''CA1'') ''It is noon'')) = []
   \<and> take 1 (requests (fst (respondWithTts
       \<lparr>twilioClient = True, PUBLIC_BASE_URL = Some ''https://bridge.example''\<rparr>
       (constantServices [0x49, 0x44, 0x33] [] (Inr ()) (Inr ()) (Inr ()))
       playback_init 1700000000000 [4, 15, 35, 34, 24, 8, 2, 22, 31, 34, 27] (Some ''CA1'') ''It is noon'')))
      = [Synthesize ''It is noon'']
   \<and> take 2 (requests (fst (respondWithTts
       \<lparr>twilioClient = True, PUBLIC_BASE_URL = Some ''https://bridge.example''\<rparr>
       (constantServices [0x49, 0x44, 0x33] [] (Inr ()) (Inr ()) (Inr ()))
       playback_init 1700000000000 [4, 15, 35, 34, 24, 8, 2, 22, 31, 34, 27] (Some ''CA1'') ''It is noon'')))
      = [Synthesize ''It is noon'', ConferencesList ''CA1'']
   \<and> audioStore (fst (respondWithTts
       \<lparr>twilioClient = True, PUBLIC_BASE_URL = Some ''https://bridge.example''\<rparr>
       (constantServices [0x49, 0x44, 0x33] [] (Inr ()) (Inr ()) (Inr ()))
       playback_init 1700000000000 [4, 15, 35, 34, 24, 8, 2, 22, 31, 34, 27] (Some ''CA1'') ''It is noon''))
       ''1700000000000-4fzyo82mvyr'' = Some [0x49, 0x44, 0x33]"
proof -
  let ?off = "\<lparr>twilioClient = True, PUBLIC_BASE_URL = None\<rparr>"
  let ?cfg = "\<lparr>twilioClient = True, PUBLIC_BASE_URL = Some ''https://bridge.example''\<rparr>"
  let ?svc = "(constantServices [0x49, 0x44, 0x33] [] (Inr ()) (Inr ()) (Inr ()))"
  let ?rnd = "[4, 15, 35, 34, 24, 8, 2, 22, 31, 34, 27] :: nat list"
  have off: "\<not> twilioClient ?off \<or> \<not> truthy (PUBLIC_BASE_URL ?off) \<or> \<not> truthy (Some ''CA1'')"
    by (simp add: truthy_def)
  have on: "twilioClient ?cfg \<and> truthy (PUBLIC_BASE_URL ?cfg) \<and> truthy (Some ''CA1'')
      \<and> callMeta playback_init (Some ''CA1'') = None"
    by (simp add: truthy_def playback_init_def)
  have on': "twilioClient ?cfg \<and> PUBLIC_BASE_URL ?cfg = Some ''https://bridge.example''
      \<and> ''https://bridge.example'' \<noteq> [] \<and> Some ''CA1'' = Some ''CA1'' \<and> ''CA1'' \<noteq> []
      \<and> callMeta playback_init (Some ''CA1'') = None
      \<and> synthesizeElevenlabs ?svc ''It is noon'' = Inr [0x49, 0x44, 0x33]"
    by (simp add: playback_init_def constantServices_def)
  have e: "requests playback_init = []" by (simp add: playback_init_def)
  from announce_skipped_when_unconfigured
    [of ?off "Some ''CA1''" ?svc playback_init 1700000000000 ?rnd "''It is noon''"] off
  have a: "snd (respondWithTts ?off ?svc playback_init 1700000000000 ?rnd (Some ''CA1'')
              ''It is noon'') = Inr ()"
    and b: "requests (fst (respondWithTts ?off ?svc playback_init 1700000000000 ?rnd
              (Some ''CA1'') ''It is noon'')) = requests playback_init"
    by blast+
  from announce_skipped_when_unconfigured
    [of ?cfg "Some ''CA1''" ?svc playback_init 1700000000000 ?rnd "''It is noon''"] on
  have c: "take (Suc (length (requests playback_init))) (requests (fst (respondWithTts ?cfg ?svc
              playback_init 1700000000000 ?rnd (Some ''CA1'') ''It is noon'')))
            = requests playback_init @ [Synthesize ''It is noon'']"
    by blast
  note th = announce_skipped_when_unconfigured
    [of ?cfg "Some ''CA1''" ?svc playback_init 1700000000000 ?rnd "''It is noon''"
        "''https://bridge.example''" "''CA1''" "[0x49, 0x44, 0x33]",
     THEN conjunct2, THEN conjunct2, rule_format, OF on']
  have d: "audioStore (fst (respondWithTts ?cfg ?svc playback_init 1700000000000 ?rnd
              (Some ''CA1'') ''It is noon'')) (blobId 1700000000000 ?rnd) = Some [0x49, 0x44, 0x33]"
    by (rule th [THEN conjunct1])
  have f: "take (Suc (Suc (length (requests playback_init)))) (requests (fst (respondWithTts ?cfg ?svc
              playback_init 1700000000000 ?rnd (Some ''CA1'') ''It is noon'')))
            = requests playback_init @ [Synthesize ''It is noon'', ConferencesList ''CA1'']"
    by (rule th [THEN conjunct2, THEN conjunct1])
  have two: "Suc (Suc 0) = 2" by simp
  from a b c d f show ?thesis
    unfolding e blobId_example by (simp add: two)
qed

theorem announce_without_metadata_counterexample:
  "callMeta playback_init (Some ''CA1'') = None
   \<and> requests (fst (respondWithTts
       \<lparr>twilioClient = True, PUBLIC_BASE_URL = Some ''https://bridge.example''\<rparr>
       (constantServices [0x49, 0x44, 0x33] [] (Inr ()) (Inr ()) (Inr ()))
       playback_init 1700000000000 [4, 15, 35, 34, 24, 8, 2, 22, 31, 34, 27] (Some ''CA1'') ''It is noon''))
      = [Synthesize ''It is noon'', ConferencesList ''CA1'',
         CallUpdate ''CA1'' (twimlPlay ''https://bridge.example/audio/1700000000000-4fzyo82mvyr.mp3'' ''CA1'')]
   \<and> audioStore (fst (respondWithTts
       \<lparr>twilioClient = True, PUBLIC_BASE_URL = Some ''https://bridge.example''\<rparr>
       (constantServices [0x49, 0x44, 0x33] [] (Inr ()) (Inr ()) (Inr ()))
       playback_init 1700000000000 [4, 15, 35, 34, 24, 8, 2, 22, 31, 34, 27] (Some ''CA1'') ''It is noon''))
       ''1700000000000-4fzyo82mvyr'' = Some [0x49, 0x44, 0x33]"
  by (simp add: respondWithTts_def resolveConference_def announceTiers_def twimlFallback_def
        request_def warn_def playback_init_def emptyMeta_def orElse_def truthy_def Let_def
        voiceInbound_def constantServices_def blobId_example)

text \<open>
  C8 (as amended). Let the operation be configured, the synthesis succeed, and the
  conference lookup end in state \<open>st2\<close> with conference sid \<open>confSid\<close>. If a sid is known,
  the conference-wide announcement is requested first and its success ends the operation;
  on its failure, which is logged, the participant announcement is requested and its success
  ends the operation; on its failure, which is logged too, the call's instructions are
  replaced. If no sid is known, the two announcements are not requested and the call's
  instructions are replaced at once. The operation fails only with the failure of that last
  request, and then every announcement that was due has failed.
\<close>

theorem announce_tiers_in_order:
  assumes "twilioClient cfg" and "PUBLIC_BASE_URL cfg = Some base" and "base \<noteq> []"
    and "sid \<noteq> []" and "synthesizeElevenlabs svc text = Inr audioBuf"
    and "resolveConference svc (stored st now rnd text audioBuf) (Some sid) (metaOf st (Some sid))
           (orElse (conferenceName (metaOf st (Some sid))) (Some sid)) = (st2, confSid)"
    and "url = base @ ''/audio/'' @ blobId now rnd @ ''.mp3''"
    and "orElse (conferenceName (metaOf st (Some sid))) (Some sid) = Some confName"
  shows
   "(confSid = Some cs \<and> cs \<noteq> [] \<and> conferenceUpdate svc cs url = Inr () \<longrightarrow>
      requests (fst (respondWithTts cfg svc st now rnd (Some sid) text))
        = requests st2 @ [ConferenceAnnounce cs url]
      \<and> warnings (fst (respondWithTts cfg svc st now rnd (Some sid) text)) = warnings st2
      \<and> snd (respondWithTts cfg svc st now rnd (Some sid) text) = Inr ())
   \<and> (confSid = Some cs \<and> cs \<noteq> [] \<and> conferenceUpdate svc cs url = Inl e1
        \<and> participantUpdate svc cs sid url = Inr () \<longrightarrow>
      requests (fst (respondWithTts cfg svc st now rnd (Some sid) text))
        = requests st2 @ [ConferenceAnnounce cs url, ParticipantAnnounce cs sid url]
      \<and> warnings (fst (respondWithTts cfg svc st now rnd (Some sid) text))
        = warnings st2 @ [''conference announce failed, trying participant '' @ e1]
      \<and> snd (respondWithTts cfg svc st now rnd (Some sid) text) = Inr ())
   \<and> (confSid = Some cs \<and> cs \<noteq> [] \<and> conferenceUpdate svc cs url = Inl e1
        \<and> participantUpdate svc cs sid url = Inl e2 \<longrightarrow>
      requests (fst (respondWithTts cfg svc st now rnd (Some sid) text))
        = requests st2 @ [ConferenceAnnounce cs url, ParticipantAnnounce cs sid url,
                          CallUpdate sid (twimlPlay url confName)]
      \<and> warnings (fst (respondWithTts cfg svc st now rnd (Some sid) text))
        = warnings st2 @ [''conference announce failed, trying participant '' @ e1,
                          ''participant announce failed '' @ e2,
                          ''respondWithTts: falling back to TwiML update'']
      \<and> snd (respondWithTts cfg svc st now rnd (Some sid) text)
        = callUpdate svc sid (twimlPlay url confName))
   \<and> (\<not> truthy confSid \<longrightarrow>
      requests (fst (respondWithTts cfg svc st now rnd (Some sid) text))
        = requests st2 @ [CallUpdate sid (twimlPlay url confName)]
      \<and> warnings (fst (respondWithTts cfg svc st now rnd (Some sid) text))
        = warnings st2 @ [''respondWithTts: falling back to TwiML update'']
      \<and> snd (respondWithTts cfg svc st now rnd (Some sid) text)
        = callUpdate svc sid (twimlPlay url confName))
   \<and> (snd (respondWithTts cfg svc st now rnd (Some sid) text) = Inl err \<longrightarrow>
      callUpdate svc sid (twimlPlay url confName) = Inl err
      \<and> (\<forall>c. confSid = Some c \<and> c \<noteq> [] \<longrightarrow>
            (\<exists>a b. conferenceUpdate svc c url = Inl a \<and> participantUpdate svc c sid url = Inl b)))"
proof -
  have eq: "respondWithTts cfg svc st now rnd (Some sid) text
      = announceTiers svc st2 sid url confSid confName"
    using assms(6) by (simp add: respondWithTts_announces [OF assms(1-5)] assms(7,8))
  show ?thesis
    unfolding eq by (rule announceTiers_cases)
qed

theorem announce_tiers_in_order_witness:
  "requests (fst (respondWithTts
       \<lparr>twilioClient = True, PUBLIC_BASE_URL = Some ''https://bridge.example''\<rparr>
       (constantServices [0x49, 0x44, 0x33] [''CF1''] (Inl ''conference not found'') (Inr ()) (Inr ()))
       playback_init 1700000000000 [4, 15, 35, 34, 24, 8, 2, 22, 31, 34, 27] (Some ''CA1'') ''It is noon''))
     = [Synthesize ''It is noon'', ConferencesList ''CA1'',
        ConferenceAnnounce ''CF1'' ''https://bridge.example/audio/1700000000000-4fzyo82mvyr.mp3'',
        ParticipantAnnounce ''CF1'' ''CA1'' ''https://bridge.example/audio/1700000000000-4fzyo82mvyr.mp3'']
   \<and> snd (respondWithTts
       \<lparr>twilioClient = True, PUBLIC_BASE_URL = Some ''https://bridge.example''\<rparr>
       (constantServices [0x49, 0x44, 0x33] [''CF1''] (Inl ''conference not found'') (Inr ()) (Inr ()))
       playback_init 1700000000000 [4, 15, 35, 34, 24, 8, 2, 22, 31, 34, 27] (Some ''CA1'') ''It is noon'') = Inr ()"
proof -
  let ?cfg = "\<lparr>twilioClient = True, PUBLIC_BASE_URL = Some ''https://bridge.example''\<rparr>"
  let ?svc = "(constantServices [0x49, 0x44, 0x33] [''CF1''] (Inl ''conference not found'') (Inr ()) (Inr ()))"
  let ?url = "''https://bridge.example'' @ ''/audio/'' @ blobId 1700000000000 [4, 15, 35, 34, 24, 8, 2, 22, 31, 34, 27] @ ''.mp3''"
  let ?rc = "resolveConference ?svc (stored playback_init 1700000000000 [4, 15, 35, 34, 24, 8, 2, 22, 31, 34, 27] ''It is noon''
                 [0x49, 0x44, 0x33]) (Some ''CA1'') (metaOf playback_init (Some ''CA1''))
               (orElse (conferenceName (metaOf playback_init (Some ''CA1''))) (Some ''CA1''))"
  have h1: "twilioClient ?cfg" and h2: "PUBLIC_BASE_URL ?cfg = Some ''https://bridge.example''"
    and h3: "''https://bridge.example'' \<noteq> []" and h4: "''CA1'' \<noteq> []"
    and h5: "synthesizeElevenlabs ?svc ''It is noon'' = Inr [0x49, 0x44, 0x33]"
    by (simp_all add: constantServices_def)
  have cs: "snd ?rc = Some ''CF1''"
    by (simp add: play_eval)
  then have h6: "?rc = (fst ?rc, Some ''CF1'')"
    by (simp add: prod_eq_iff)
  have h8: "orElse (conferenceName (metaOf playback_init (Some ''CA1''))) (Some ''CA1'') = Some ''CA1''"
    by (simp add: play_eval)
  have rq: "requests (fst ?rc) = [Synthesize ''It is noon'', ConferencesList ''CA1'']"
    by (simp add: play_eval)
  have t1: "conferenceUpdate ?svc ''CF1'' ?url = Inl ''conference not found''"
    and t2: "participantUpdate ?svc ''CF1'' ''CA1'' ?url = Inr ()"
    by (simp_all add: constantServices_def)
  note th = announce_tiers_in_order [OF h1 h2 h3 h4 h5 h6 refl h8,
      of "''CF1''" "''conference not found''"]
  from th t1 t2
  have a: "requests (fst (respondWithTts ?cfg ?svc playback_init 1700000000000 [4, 15, 35, 34, 24, 8, 2, 22, 31, 34, 27]
              (Some ''CA1'') ''It is noon''))
        = requests (fst ?rc) @ [ConferenceAnnounce ''CF1'' ?url, ParticipantAnnounce ''CF1'' ''CA1'' ?url]"
    and b: "snd (respondWithTts ?cfg ?svc playback_init 1700000000000 [4, 15, 35, 34, 24, 8, 2, 22, 31, 34, 27]
              (Some ''CA1'') ''It is noon'') = Inr ()"
    by blast+
  show ?thesis
    unfolding a b rq by (simp add: blobId_example)
qed

theorem announce_tiers_counterexample:
  "requests (fst (respondWithTts
       \<lparr>twilioClient = True, PUBLIC_BASE_URL = Some ''https://bridge.example''\<rparr>
       (constantServices [0x49, 0x44, 0x33] [] (Inr ()) (Inr ()) (Inl ''call not found''))
       (voiceInbound (Some ''CA1'') (Some ''+15550100'') playback_init)
       1700000000000 [4, 15, 35, 34, 24, 8, 2, 22, 31, 34, 27] (Some ''CA1'') ''It is noon''))
     = [Synthesize ''It is noon'', ConferencesList ''CA1'',
        CallUpdate ''CA1'' (twimlPlay ''https://bridge.example/audio/1700000000000-4fzyo82mvyr.mp3'' ''CA1'')]
   \<and> snd (respondWithTts
       \<lparr>twilioClient = True, PUBLIC_BASE_URL = Some ''https://bridge.example''\<rparr>
       (constantServices [0x49, 0x44, 0x33] [] (Inr ()) (Inr ()) (Inl ''call not found''))
       (voiceInbound (Some ''CA1'') (Some ''+15550100'') playback_init)
       1700000000000 [4, 15, 35, 34, 24, 8, 2, 22, 31, 34, 27] (Some ''CA1'') ''It is noon'') = Inl ''call not found''"
  by (simp add: respondWithTts_def resolveConference_def announceTiers_def twimlFallback_def
        request_def warn_def playback_init_def emptyMeta_def orElse_def truthy_def Let_def
        voiceInbound_def constantServices_def blobId_example)

text \<open>
  C9. Let the operation be configured and the synthesis return a buffer. Right after the
  operation the endpoint serves the stored bytes under the identifier followed by
  \<^verbatim>\<open>.mp3\<close>, the name the playback URL uses; and when 300000 ms have passed after it the
  blob is deleted and every request whose parameter leads to the blob's key is answered
  not-found. The identifier prints the clock value and the random digits, and two
  identifiers are equal only if both of these are (\<open>blobId_inject\<close>). So, in a run of the
  announcer from its initial state with any events before and after the operation: if no
  other operation has the same clock value and the same random digits, the endpoint serves
  the same bytes at every time before the 300000 ms have passed, the later events having
  happened by then; and if no later operation has them, every request leading to the blob's
  key is answered not-found once the 300000 ms have passed.
\<close>

theorem blob_retrievable_until_expiry:
  assumes "configured cfg callSid"
    and "synthesizeElevenlabs svc text = Inr audioBuf"
  shows "serveAudio (fst (respondWithTts cfg svc st now rnd callSid text)) (blobId now rnd @ ''.mp3'')
           = AudioMpeg audioBuf
       \<and> (\<forall>T p. now + 300000 \<le> T \<and> replaceFirst ''.mp3'' [] p = blobId now rnd \<longrightarrow>
             serveAudio (expireBlobs T (fst (respondWithTts cfg svc st now rnd callSid text))) p
               = NotFound)
       \<and> replaceFirst ''.mp3'' [] (blobId now rnd @ ''.mp3'') = blobId now rnd
       \<and> ((now, map base36 rnd) \<notin> set (draws (pre @ post))
            \<and> (\<forall>e \<in> set post. fst e \<le> T) \<and> T < now + 300000 \<longrightarrow>
            serveAudio (expireBlobs T (playback_run cfg
                (pre @ (now, Respond svc callSid text rnd) # post) playback_init))
              (blobId now rnd @ ''.mp3'') = AudioMpeg audioBuf)
       \<and> ((now, map base36 rnd) \<notin> set (draws post) \<and> now + 300000 \<le> T \<longrightarrow>
            (\<forall>p. replaceFirst ''.mp3'' [] p = blobId now rnd \<longrightarrow>
               serveAudio (expireBlobs T (playback_run cfg
                   (pre @ (now, Respond svc callSid text rnd) # post) playback_init)) p
                 = NotFound))"
proof -
  let ?st = "fst (respondWithTts cfg svc st now rnd callSid text)"
  let ?id = "blobId now rnd"
  let ?s0 = "expireBlobs now (playback_run cfg pre playback_init)"
  let ?s1 = "fst (respondWithTts cfg svc ?s0 now rnd callSid text)"
  let ?end = "playback_run cfg (pre @ (now, Respond svc callSid text rnd) # post) playback_init"
  note s = respondWithTts_store [OF assms(1,2), of st now rnd]
  note s1 = respondWithTts_store [OF assms(1,2), of ?s0 now rnd]
  have nd: "CHR ''.'' \<notin> set ?id" by (rule blobId_no_dot)
  have key: "replaceFirst ''.mp3'' [] (?id @ ''.mp3'') = ?id"
    by (rule replaceFirst_suffix [OF nd])
  have run: "?end = playback_run cfg post ?s1"
    by (simp add: playback_run_append)
  have 1: "serveAudio ?st (?id @ ''.mp3'') = AudioMpeg audioBuf"
    by (simp add: serveAudio_def key s)
  have 2: "serveAudio (expireBlobs T ?st) p = NotFound"
    if "now + 300000 \<le> T \<and> replaceFirst ''.mp3'' [] p = ?id" for T p
  proof -
    have "\<exists>e \<in> set (blobTimers ?st). fst e \<le> T \<and> snd e = ?id"
      using that by (simp add: s)
    then have "audioStore (expireBlobs T ?st) ?id = None"
      by (simp add: expireBlobs_store)
    then show ?thesis using that by (simp add: serveAudio_def)
  qed
  have 3: "serveAudio (expireBlobs T ?end) (?id @ ''.mp3'') = AudioMpeg audioBuf"
    if fresh: "(now, map base36 rnd) \<notin> set (draws (pre @ post))"
      and le: "\<forall>e \<in> set post. fst e \<le> T" and T: "T < now + 300000"
  proof -
    from fresh have f1: "(now, map base36 rnd) \<notin> set (draws pre)"
      and f2: "(now, map base36 rnd) \<notin> set (draws post)"
      by (simp_all add: draws_append)
    have "?id \<notin> snd ` set (blobTimers playback_init)" by (simp add: playback_init_def)
    from run_keeps_fresh [OF this draws_others [OF f1], of cfg]
    have "?id \<notin> snd ` set (blobTimers ?s0)"
      by (auto simp: expireBlobs_timers)
    then have due: "\<forall>e \<in> set (blobTimers ?s1). snd e = ?id \<longrightarrow> T < fst e"
      using T by (force simp: s1)
    have st: "audioStore ?s1 ?id = Some audioBuf" by (simp add: s1)
    from run_blob_kept [OF st due le draws_others [OF f2], of cfg]
    have "audioStore (expireBlobs T ?end) ?id = Some audioBuf"
      by (simp only: run)
    then show ?thesis by (simp add: serveAudio_def key)
  qed
  have 4: "serveAudio (expireBlobs T ?end) p = NotFound"
    if fresh: "(now, map base36 rnd) \<notin> set (draws post)"
      and T: "now + 300000 \<le> T" and p: "replaceFirst ''.mp3'' [] p = ?id" for p
  proof -
    have "audioStore ?s1 ?id = None \<or> (\<exists>e \<in> set (blobTimers ?s1). snd e = ?id \<and> fst e \<le> T)"
      using T by (simp add: s1)
    from run_blob_gone [OF this draws_others [OF fresh], of cfg]
    have "audioStore (expireBlobs T ?end) ?id = None"
      by (simp only: run)
    then show ?thesis using p by (simp add: serveAudio_def)
  qed
  from 1 2 3 4 key show ?thesis by blast
qed

theorem blob_retrievable_until_expiry_witness:
  "serveAudio (fst (respondWithTts
       \<lparr>twilioClient = True, PUBLIC_BASE_URL = Some ''https://bridge.example''\<rparr>
       (constantServices [0x49, 0x44, 0x33] [] (Inr ()) (Inr ()) (Inr ()))
       playback_init 1700000000000 [4, 15, 35, 34, 24, 8, 2, 22, 31, 34, 27] (Some ''CA1'') ''It is noon''))
     ''1700000000000-4fzyo82mvyr.mp3'' = AudioMpeg [0x49, 0x44, 0x33]
   \<and> serveAudio (expireBlobs 1700000300000 (fst (respondWithTts
       \<lparr>twilioClient = True, PUBLIC_BASE_URL = Some ''https://bridge.example''\<rparr>
       (constantServices [0x49, 0x44, 0x33] [] (Inr ()) (Inr ()) (Inr ()))
       playback_init 1700000000000 [4, 15, 35, 34, 24, 8, 2, 22, 31, 34, 27] (Some ''CA1'') ''It is noon'')))
     ''1700000000000-4fzyo82mvyr.mp3'' = NotFound
   \<and> serveAudio (expireBlobs 1700000299999 (playback_run
       \<lparr>twilioClient = True, PUBLIC_BASE_URL = Some ''https://bridge.example''\<rparr>
       ([(1699999900000, Respond (constantServices [0x52, 0x49] [] (Inr ()) (Inr ()) (Inr ()))
            (Some ''CA2'') ''Good morning'' [7, 8, 9])]
        @ (1700000000000, Respond (constantServices [0x49, 0x44, 0x33] [] (Inr ()) (Inr ()) (Inr ()))
            (Some ''CA1'') ''It is noon'' [4, 15, 35, 34, 24, 8, 2, 22, 31, 34, 27])
        # [(1700000000000, Respond (constantServices [0x46, 0x46] [] (Inr ()) (Inr ()) (Inr ()))
            (Some ''CA2'') ''One moment'' [4, 15, 35, 34, 24, 8, 2, 22, 31, 34, 28]),
           (1700000200000, SetMeta (Some ''CA1'') emptyMeta)])
       playback_init))
     ''1700000000000-4fzyo82mvyr.mp3'' = AudioMpeg [0x49, 0x44, 0x33]
   \<and> serveAudio (expireBlobs 1700000300000 (playback_run
       \<lparr>twilioClient = True, PUBLIC_BASE_URL = Some ''https://bridge.example''\<rparr>
       ([(1699999900000, Respond (constantServices [0x52, 0x49] [] (Inr ()) (Inr ()) (Inr ()))
            (Some ''CA2'') ''Good morning'' [7, 8, 9])]
        @ (1700000000000, Respond (constantServices [0x49, 0x44, 0x33] [] (Inr ()) (Inr ()) (Inr ()))
            (Some ''CA1'') ''It is noon'' [4, 15, 35, 34, 24, 8, 2, 22, 31, 34, 27])
        # [(1700000000000, Respond (constantServices [0x46, 0x46] [] (Inr ()) (Inr ()) (Inr ()))
            (Some ''CA2'') ''One moment'' [4, 15, 35, 34, 24, 8, 2, 22, 31, 34, 28]),
           (1700000200000, SetMeta (Some ''CA1'') emptyMeta)])
       playback_init))
     ''1700000000000-4fzyo82mvyr.mp3'' = NotFound"
proof -
  let ?cfg = "\<lparr>twilioClient = True, PUBLIC_BASE_URL = Some ''https://bridge.example''\<rparr>"
  let ?svc = "(constantServices [0x49, 0x44, 0x33] [] (Inr ()) (Inr ()) (Inr ()))"
  let ?rnd = "[4, 15, 35, 34, 24, 8, 2, 22, 31, 34, 27] :: nat list"
  let ?pre = "[(1699999900000 :: millis, Respond (constantServices [0x52, 0x49] [] (Inr ()) (Inr ()) (Inr ()))
            (Some ''CA2'') ''Good morning'' [7, 8, 9])]"
  let ?post = "[(1700000000000 :: millis, Respond (constantServices [0x46, 0x46] [] (Inr ()) (Inr ()) (Inr ()))
            (Some ''CA2'') ''One moment'' [4, 15, 35, 34, 24, 8, 2, 22, 31, 34, 28]),
           (1700000200000, SetMeta (Some ''CA1'') emptyMeta)]"
  have h1: "configured ?cfg (Some ''CA1'')" by (simp add: configured_def truthy_def)
  have h2: "synthesizeElevenlabs ?svc ''It is noon'' = Inr [0x49, 0x44, 0x33]"
    by (simp add: constantServices_def)
  have b36: "base36 27 \<noteq> base36 28" by (simp add: base36_def)
  have fresh: "(1700000000000, map base36 ?rnd) \<notin> set (draws (?pre @ ?post))"
    and fresh': "(1700000000000, map base36 ?rnd) \<notin> set (draws ?post)"
    using b36 by simp_all
  have le: "\<forall>e \<in> set ?post. fst e \<le> 1700000299999" by simp
  have lt: "(1700000299999 :: millis) < 1700000000000 + 300000"
    and ge: "(1700000000000 :: millis) + 300000 \<le> 1700000300000"
    by simp_all
  have key: "replaceFirst ''.mp3'' [] (blobId 1700000000000 ?rnd @ ''.mp3'') = blobId 1700000000000 ?rnd"
    using blob_retrievable_until_expiry [OF h1 h2, of playback_init 1700000000000 ?rnd] by blast
  note th = blob_retrievable_until_expiry [OF h1 h2, of playback_init 1700000000000 ?rnd ?pre ?post]
  have a: "serveAudio (fst (respondWithTts ?cfg ?svc playback_init 1700000000000 ?rnd
              (Some ''CA1'') ''It is noon''))
            (blobId 1700000000000 ?rnd @ ''.mp3'') = AudioMpeg [0x49, 0x44, 0x33]"
    by (rule th [THEN conjunct1])
  have b: "serveAudio (expireBlobs 1700000300000 (fst (respondWithTts ?cfg ?svc playback_init
              1700000000000 ?rnd (Some ''CA1'') ''It is noon'')))
            (blobId 1700000000000 ?rnd @ ''.mp3'') = NotFound"
    using th [THEN conjunct2, THEN conjunct1] ge key by blast
  have c: "serveAudio (expireBlobs 1700000299999 (playback_run ?cfg
              (?pre @ (1700000000000, Respond ?svc (Some ''CA1'') ''It is noon'' ?rnd) # ?post)
              playback_init))
            (blobId 1700000000000 ?rnd @ ''.mp3'') = AudioMpeg [0x49, 0x44, 0x33]"
    using th [of 1700000299999, THEN conjunct2, THEN conjunct2, THEN conjunct2, THEN conjunct1]
      fresh le lt by blast
  have d: "serveAudio (expireBlobs 1700000300000 (playback_run ?cfg
              (?pre @ (1700000000000, Respond ?svc (Some ''CA1'') ''It is noon'' ?rnd) # ?post)
              playback_init))
            (blobId 1700000000000 ?rnd @ ''.mp3'') = NotFound"
    using th [of 1700000300000, THEN conjunct2, THEN conjunct2, THEN conjunct2, THEN conjunct2]
      fresh' ge key by blast
  from a b c d show ?thesis
    unfolding blobId_example by simp
qed

end
